theory Spec2Isabelle
  imports Main
begin

section \<open>Domain model of \<^verbatim>\<open>fmodel.py\<close>\<close>

text \<open>
  A \<^verbatim>\<open>datetime.date\<close> is represented by its day number (its proleptic ordinal), so that
  \<^verbatim>\<open>(a - b).days\<close> is the integer difference \<open>a - b\<close> and the order of dates is the
  order of integers.
\<close>

type_synonym date = int

type_synonym ClubT = string

record Team =
  division :: int
  club :: ClubT
  index :: int

record Fixture =
  home_team :: Team
  away_team :: Team

record ScheduledFixture =
  fixture :: Fixture
  date :: date

record Parameters =
  teams :: "Team list"
  home_dates :: "ClubT \<rightharpoonup> date list"
  unavailable_away_dates :: "ClubT \<rightharpoonup> date list"
  min_gap_days :: int
  max_concurrent_home_matches :: int

section \<open>The window partitioner \<^verbatim>\<open>date_windows\<close>\<close>

text \<open>
  The outer loop of \<^verbatim>\<open>date_windows\<close> walks the sorted dates; for the date \<open>d\<close> at
  position \<open>i\<close> the inner loop adds the dates after position \<open>i\<close> to \<open>{d}\<close> for as long as
  they are within \<open>window_days\<close> of \<open>d\<close>, and breaks at the first one that is not.
\<close>

fun anchored_windows :: "date list \<Rightarrow> int \<Rightarrow> date set list" where
  "anchored_windows [] window_days = []"
| "anchored_windows (d # later) window_days =
     insert d (set (takeWhile (\<lambda>e. e - d \<le> window_days) later))
       # anchored_windows later window_days"

text \<open>
  The second loop keeps a window unless it is a subset of a window kept before it;
  \<open>result\<close> is the list built so far, extended at its end.
\<close>

fun keep_maximal :: "date set list \<Rightarrow> date set list \<Rightarrow> date set list" where
  "keep_maximal result [] = result"
| "keep_maximal result (window # rest) =
     (if \<not> list_ex (\<lambda>w. window \<subseteq> w) result
      then keep_maximal (result @ [window]) rest
      else keep_maximal result rest)"

text \<open>
  \<^verbatim>\<open>all_windows.sort(key=len, reverse=True)\<close> is a stable sort by descending size:
  windows of equal size keep their order, which is what a stable ascending sort on the
  negated size gives.
\<close>

definition date_windows :: "date list \<Rightarrow> int \<Rightarrow> date set list" where
  "date_windows dates window_days =
     keep_maximal []
       (sort_key (\<lambda>w. - int (card w)) (anchored_windows (sort dates) window_days))"

section \<open>The constraint builder \<^verbatim>\<open>solve\<close>\<close>

subsection \<open>Errors, variables and insertion-ordered dictionaries\<close>

text \<open>
  \<^verbatim>\<open>solve\<close> has three places that raise. The lookup
  \<^verbatim>\<open>params.home_dates[home_team.club]\<close> raises \<^verbatim>\<open>KeyError\<close> for a club that is no key of
  the mapping. The comparison \<^verbatim>\<open>LinearExpr.Sum(...) <= params.max_concurrent_home_matches\<close>
  is an operator of the solver library, which takes its integer bound as a signed 64-bit
  number and raises for a bound it does not accept, with a \<^verbatim>\<open>TypeError\<close> or an
  \<^verbatim>\<open>ArithmeticError\<close>; \<open>BoundError\<close> stands for both and carries the bound. The last line
  raises \<^verbatim>\<open>ValueError("No solution found")\<close>.
\<close>

datatype error = KeyError ClubT | BoundError int | ValueError string

text \<open>
  A boolean variable of the model is identified by its creation number: the \<open>n\<close>-th call
  of \<^verbatim>\<open>model.new_bool_var\<close> returns variable \<open>n\<close>. The name string given to the variable
  is a label only and is left out.
\<close>

type_synonym var = nat

text \<open>
  A \<^verbatim>\<open>defaultdict(list)\<close> is an association list in insertion order, as Python
  dictionaries iterate. \<open>dd_append k v m\<close> is \<^verbatim>\<open>m[k].append(v)\<close>: a missing key is
  inserted at the end with the list \<open>[v]\<close>. \<open>dd_get m k\<close> reads \<^verbatim>\<open>m[k]\<close>.
\<close>

fun dd_append :: "'k \<Rightarrow> 'v \<Rightarrow> ('k \<times> 'v list) list \<Rightarrow> ('k \<times> 'v list) list" where
  "dd_append k v [] = [(k, [v])]"
| "dd_append k v ((k', vs) # rest) =
     (if k' = k then (k', vs @ [v]) # rest else (k', vs) # dd_append k v rest)"

definition dd_get :: "('k \<times> 'v list) list \<Rightarrow> 'k \<Rightarrow> 'v list" where
  "dd_get m k = (case map_of m k of None \<Rightarrow> [] | Some vs \<Rightarrow> vs)"

text \<open>
  \<open>dd_append2 k j v m\<close> is \<^verbatim>\<open>m[k][j].append(v)\<close> on a
  \<^verbatim>\<open>defaultdict(lambda: defaultdict(list))\<close>.
\<close>

fun dd_append2 ::
  "'k \<Rightarrow> 'j \<Rightarrow> 'v \<Rightarrow> ('k \<times> ('j \<times> 'v list) list) list \<Rightarrow> ('k \<times> ('j \<times> 'v list) list) list"
where
  "dd_append2 k j v [] = [(k, [(j, [v])])]"
| "dd_append2 k j v ((k', inner) # rest) =
     (if k' = k then (k', dd_append j v inner) # rest
      else (k', inner) # dd_append2 k j v rest)"

subsection \<open>Candidate variables and the four indices\<close>

definition teams_by_division :: "Team list \<Rightarrow> (int \<times> Team list) list" where
  "teams_by_division ts = foldl (\<lambda>m team. dd_append (division team) team m) [] ts"

text \<open>
  \<^verbatim>\<open>itertools.permutations(xs, 2)\<close> yields the pairs of elements at two different
  positions, in lexicographic order of the positions.
\<close>

definition permutations2 :: "'a list \<Rightarrow> ('a \<times> 'a) list" where
  "permutations2 xs =
     concat (map (\<lambda>i. map (\<lambda>j. (xs ! i, xs ! j)) (filter (\<lambda>j. j \<noteq> i) [0..<length xs]))
       [0..<length xs])"

record Indices =
  num_vars :: nat
  vars_by_fixture :: "(Fixture \<times> var list) list"
  vars_by_fixture_date :: "((Fixture \<times> date) \<times> var list) list"
  vars_by_team_date :: "(Team \<times> (date \<times> var list) list) list"
  vars_by_club_home_date :: "((ClubT \<times> date) \<times> var list) list"

definition empty_indices :: Indices where
  "empty_indices =
     \<lparr>num_vars = 0, vars_by_fixture = [], vars_by_fixture_date = [],
      vars_by_team_date = [], vars_by_club_home_date = []\<rparr>"

text \<open>The body of the innermost loop after the \<^verbatim>\<open>continue\<close> test: lines 107 to 118.\<close>

definition new_candidate :: "Team \<Rightarrow> Team \<Rightarrow> date \<Rightarrow> Indices \<Rightarrow> Indices" where
  "new_candidate home away match_date st =
     (let v = num_vars st; fx = \<lparr>home_team = home, away_team = away\<rparr> in
      \<lparr>num_vars = Suc v,
       vars_by_fixture = dd_append fx v (vars_by_fixture st),
       vars_by_fixture_date = dd_append (fx, match_date) v (vars_by_fixture_date st),
       vars_by_team_date =
         dd_append2 away match_date v (dd_append2 home match_date v (vars_by_team_date st)),
       vars_by_club_home_date =
         dd_append (club home, match_date) v (vars_by_club_home_date st)\<rparr>)"

text \<open>\<^verbatim>\<open>params.unavailable_away_dates.get(club, [])\<close>\<close>

definition away_blackout :: "Parameters \<Rightarrow> ClubT \<Rightarrow> date list" where
  "away_blackout p c = (case unavailable_away_dates p c of None \<Rightarrow> [] | Some ds \<Rightarrow> ds)"

fun dates_loop :: "Parameters \<Rightarrow> Team \<Rightarrow> Team \<Rightarrow> date list \<Rightarrow> Indices \<Rightarrow> Indices" where
  "dates_loop p home away [] st = st"
| "dates_loop p home away (match_date # ds) st =
     (if match_date \<in> set (away_blackout p (club away))
      then dates_loop p home away ds st
      else dates_loop p home away ds (new_candidate home away match_date st))"

fun pairs_loop :: "Parameters \<Rightarrow> (Team \<times> Team) list \<Rightarrow> Indices \<Rightarrow> error + Indices" where
  "pairs_loop p [] st = Inr st"
| "pairs_loop p ((home, away) # rest) st =
     (case home_dates p (club home) of
        None \<Rightarrow> Inl (KeyError (club home))
      | Some ds \<Rightarrow> pairs_loop p rest (dates_loop p home away ds st))"

fun divisions_loop :: "Parameters \<Rightarrow> Team list list \<Rightarrow> Indices \<Rightarrow> error + Indices" where
  "divisions_loop p [] st = Inr st"
| "divisions_loop p (division_teams # rest) st =
     (case pairs_loop p (permutations2 division_teams) st of
        Inl e \<Rightarrow> Inl e
      | Inr st' \<Rightarrow> divisions_loop p rest st')"

definition build_variables :: "Parameters \<Rightarrow> error + Indices" where
  "build_variables p =
     divisions_loop p (map snd (teams_by_division (teams p))) empty_indices"

subsection \<open>Constraints\<close>

text \<open>
  \<open>SumEq vs k\<close> is \<^verbatim>\<open>LinearExpr.Sum(vs) == k\<close> and \<open>SumLe vs k\<close> is
  \<^verbatim>\<open>LinearExpr.Sum(vs) <= k\<close>; a variable that occurs twice in \<open>vs\<close> counts twice.
\<close>

datatype constr = SumEq "var list" int | SumLe "var list" int

text \<open>
  \<^verbatim>\<open>[v for d in window for v in team_vars_by_date[d]]\<close>. A frozenset iterates in an
  unspecified order; the ascending order is taken here, and only the sum of the list is
  used.
\<close>

definition window_vars :: "date set \<Rightarrow> (date \<times> var list) list \<Rightarrow> var list" where
  "window_vars window team_vars_by_date =
     concat (map (dd_get team_vars_by_date) (sorted_list_of_set window))"

definition coverage_constraints :: "Indices \<Rightarrow> constr list" where
  "coverage_constraints st = map (\<lambda>(fx, fixture_vars). SumEq fixture_vars 1) (vars_by_fixture st)"

definition rest_constraints :: "Parameters \<Rightarrow> Indices \<Rightarrow> constr list" where
  "rest_constraints p st =
     concat (map (\<lambda>(team, team_vars_by_date).
                    map (\<lambda>window. SumLe (window_vars window team_vars_by_date) 1)
                      (date_windows (map fst team_vars_by_date) (min_gap_days p)))
       (vars_by_team_date st))"

text \<open>
  \<^verbatim>\<open>LinearExpr.Sum(vs) <= k\<close> with a bound \<open>k\<close> taken from the parameters: the library
  accepts \<open>k\<close> when it fits a signed 64-bit integer and is not the least one, and raises
  otherwise. The bounds of the coverage and rest constraints are the literal 1, which is
  always accepted.
\<close>

definition sum_le :: "var list \<Rightarrow> int \<Rightarrow> error + constr" where
  "sum_le vs k =
     (if - (2 ^ 63) < k \<and> k < 2 ^ 63 then Inr (SumLe vs k) else Inl (BoundError k))"

text \<open>
  The third constraint loop builds one comparison for each value of
  \<^verbatim>\<open>vars_by_club_home_date\<close>, so a bound that the library does not accept raises at the
  first entry, and never when that index is empty.
\<close>

fun capacity_loop :: "int \<Rightarrow> ((ClubT \<times> date) \<times> var list) list \<Rightarrow> error + constr list" where
  "capacity_loop bound [] = Inr []"
| "capacity_loop bound ((k, club_home_date_vars) # rest) =
     (case sum_le club_home_date_vars bound of
        Inl e \<Rightarrow> Inl e
      | Inr c \<Rightarrow>
          (case capacity_loop bound rest of
             Inl e \<Rightarrow> Inl e
           | Inr cs \<Rightarrow> Inr (c # cs)))"

definition capacity_constraints :: "Parameters \<Rightarrow> Indices \<Rightarrow> error + constr list" where
  "capacity_constraints p st =
     capacity_loop (max_concurrent_home_matches p) (vars_by_club_home_date st)"

subsection \<open>The solver engine and the extraction of the schedule\<close>

text \<open>
  The CP-SAT solver is an external library. \<^verbatim>\<open>solve\<close> depends on it through
  \<^verbatim>\<open>solver.Solve(model)\<close>, which returns a status, and \<^verbatim>\<open>solver.BooleanValue(var)\<close>,
  which reads a variable's value; the engine is therefore a parameter of the model: a
  function from the number of variables and the constraints to a status and a valuation.
\<close>

datatype status = UNKNOWN | MODEL_INVALID | FEASIBLE | INFEASIBLE | OPTIMAL

type_synonym engine = "nat \<Rightarrow> constr list \<Rightarrow> status \<times> (var \<Rightarrow> bool)"

definition extract_schedule :: "Indices \<Rightarrow> (var \<Rightarrow> bool) \<Rightarrow> ScheduledFixture list" where
  "extract_schedule st boolean_value =
     concat (map (\<lambda>((fx, match_date), fixture_vars).
                    map (\<lambda>v. \<lparr>fixture = fx, date = match_date\<rparr>) (filter boolean_value fixture_vars))
       (vars_by_fixture_date st))"

definition solve :: "engine \<Rightarrow> Parameters \<Rightarrow> error + ScheduledFixture list" where
  "solve solver p =
     (case build_variables p of
        Inl e \<Rightarrow> Inl e
      | Inr st \<Rightarrow>
          (case capacity_constraints p st of
             Inl e \<Rightarrow> Inl e
           | Inr capacity \<Rightarrow>
               (case solver (num_vars st)
                       (coverage_constraints st @ rest_constraints p st @ capacity) of
                  (st_code, boolean_value) \<Rightarrow>
                    if st_code \<in> {OPTIMAL, FEASIBLE}
                    then Inr (extract_schedule st boolean_value)
                    else Inl (ValueError ''No solution found''))))"

subsection \<open>What the engine guarantees\<close>

fun var_sum :: "(var \<Rightarrow> bool) \<Rightarrow> var list \<Rightarrow> int" where
  "var_sum boolean_value [] = 0"
| "var_sum boolean_value (v # vs) = (if boolean_value v then 1 else 0) + var_sum boolean_value vs"

fun holds :: "(var \<Rightarrow> bool) \<Rightarrow> constr \<Rightarrow> bool" where
  "holds boolean_value (SumEq vs k) = (var_sum boolean_value vs = k)"
| "holds boolean_value (SumLe vs k) = (var_sum boolean_value vs \<le> k)"

text \<open>
  Modelled from the spec: the Solver Engine of section 4.4, which is not part of the
  repository. An engine is sound when a status of optimal or feasible comes with a
  valuation that satisfies every constraint of the model; it accepts the empty model when
  it reports the model without variables and constraints as optimal or feasible.
\<close>

definition engine_sound :: "engine \<Rightarrow> bool" where
  "engine_sound solver \<longleftrightarrow>
     (\<forall>n cs. fst (solver n cs) \<in> {OPTIMAL, FEASIBLE} \<longrightarrow> list_all (holds (snd (solver n cs))) cs)"

definition accepts_empty_model :: "engine \<Rightarrow> bool" where
  "accepts_empty_model solver \<longleftrightarrow> fst (solver 0 []) \<in> {OPTIMAL, FEASIBLE}"

text \<open>
  Modelled from the spec: an engine that meets the contract of section 4.4 by trying every
  valuation of the \<open>n\<close> variables in turn. It stands for the external solver wherever the
  model is run on concrete parameters.
\<close>

fun valuations :: "nat \<Rightarrow> bool list list" where
  "valuations 0 = [[]]"
| "valuations (Suc n) = concat (map (\<lambda>a. [a @ [False], a @ [True]]) (valuations n))"

definition value_in :: "bool list \<Rightarrow> var \<Rightarrow> bool" where
  "value_in a v \<longleftrightarrow> v < length a \<and> a ! v"

definition search_engine :: engine where
  "search_engine n cs =
     (case find (\<lambda>a. list_all (holds (value_in a)) cs) (valuations n) of
        None \<Rightarrow> (INFEASIBLE, \<lambda>v. False)
      | Some a \<Rightarrow> (OPTIMAL, value_in a))"


section \<open>Notions used to state and prove the properties\<close>

subsection \<open>Properties of schedules\<close>

text \<open>A team plays in a scheduled fixture as its home team or as its away team.\<close>

definition plays :: "Team \<Rightarrow> ScheduledFixture \<Rightarrow> bool" where
  "plays t sf \<longleftrightarrow> home_team (fixture sf) = t \<or> away_team (fixture sf) = t"

text \<open>
  A required fixture is an ordered pair of two different teams of the parameters that
  share a division.
\<close>

definition required_fixture :: "Parameters \<Rightarrow> Fixture \<Rightarrow> bool" where
  "required_fixture p fx \<longleftrightarrow>
     home_team fx \<in> set (teams p) \<and> away_team fx \<in> set (teams p)
     \<and> home_team fx \<noteq> away_team fx
     \<and> division (home_team fx) = division (away_team fx)"

text \<open>The number of scheduled fixtures that club \<open>c\<close> hosts on date \<open>d\<close>.\<close>

definition hosted_on :: "ClubT \<Rightarrow> date \<Rightarrow> ScheduledFixture list \<Rightarrow> nat" where
  "hosted_on c d res =
     length (filter (\<lambda>sf. club (home_team (fixture sf)) = c \<and> date sf = d) res)"

text \<open>
  The dates for which the innermost loop of \<^verbatim>\<open>solve\<close> creates a variable for the pairing
  of \<open>home\<close> and \<open>away\<close>: the home club's candidate dates that are not among the away
  club's unavailable dates. \<open>home_list\<close> reads the home dates where the club has an entry.
\<close>

definition home_list :: "Parameters \<Rightarrow> ClubT \<Rightarrow> date list" where
  "home_list p c = (case home_dates p c of None \<Rightarrow> [] | Some ds \<Rightarrow> ds)"

definition eligible_dates :: "Parameters \<Rightarrow> Team \<Rightarrow> Team \<Rightarrow> date list" where
  "eligible_dates p home away =
     filter (\<lambda>d. d \<notin> set (away_blackout p (club away))) (home_list p (club home))"

text \<open>
  The capacity constraints that the third loop has built when it raises nothing, and the
  constraints of the whole model then.
\<close>

definition capacity_list :: "Parameters \<Rightarrow> Indices \<Rightarrow> constr list" where
  "capacity_list p st =
     map (\<lambda>(k, club_home_date_vars). SumLe club_home_date_vars (max_concurrent_home_matches p))
       (vars_by_club_home_date st)"

definition model_constraints :: "Parameters \<Rightarrow> Indices \<Rightarrow> constr list" where
  "model_constraints p st =
     coverage_constraints st @ rest_constraints p st @ capacity_list p st"

text \<open>A list of windows is subset-free when no entry is a subset of an entry at another position.\<close>

definition antichain :: "date set list \<Rightarrow> bool" where
  "antichain ws \<longleftrightarrow> (\<forall>i < length ws. \<forall>j < length ws. i \<noteq> j \<longrightarrow> \<not> ws ! i \<subseteq> ws ! j)"

subsection \<open>The candidate list behind the indices\<close>

text \<open>
  The three nested loops of \<^verbatim>\<open>solve\<close> visit a sequence of candidates (home team, away
  team, date), and the \<open>n\<close>-th candidate visited owns variable \<open>n\<close>. The definitions below
  name that sequence and the state reached after it, so that the indices can be described
  by what they hold for each key.
\<close>

type_synonym cand = "Team \<times> Team \<times> date"

definition add_cand :: "Indices \<Rightarrow> cand \<Rightarrow> Indices" where
  "add_cand st c = (case c of (home, away, match_date) \<Rightarrow> new_candidate home away match_date st)"

definition pair_cands :: "Parameters \<Rightarrow> (Team \<times> Team) list \<Rightarrow> cand list" where
  "pair_cands p prs =
     concat (map (\<lambda>(home, away). map (\<lambda>d. (home, away, d)) (eligible_dates p home away)) prs)"

definition all_pairs :: "Parameters \<Rightarrow> (Team \<times> Team) list" where
  "all_pairs p = concat (map permutations2 (map snd (teams_by_division (teams p))))"

definition candidates :: "Parameters \<Rightarrow> cand list" where
  "candidates p = pair_cands p (all_pairs p)"

definition built :: "cand list \<Rightarrow> Indices" where
  "built cs = foldl add_cand empty_indices cs"

definition fx_of :: "cand \<Rightarrow> Fixture" where
  "fx_of c = (case c of (h, a, d) \<Rightarrow> \<lparr>home_team = h, away_team = a\<rparr>)"

definition date_of :: "cand \<Rightarrow> date" where
  "date_of c = (case c of (h, a, d) \<Rightarrow> d)"

definition host_of :: "cand \<Rightarrow> ClubT" where
  "host_of c = (case c of (h, a, d) \<Rightarrow> club h)"

definition sf_of :: "cand \<Rightarrow> ScheduledFixture" where
  "sf_of c = \<lparr>fixture = fx_of c, date = date_of c\<rparr>"

definition plays_in :: "Team \<Rightarrow> cand \<Rightarrow> bool" where
  "plays_in t c = (case c of (h, a, d) \<Rightarrow> h = t \<or> a = t)"

text \<open>
  An index is grouped by \<open>key\<close> when its keys are distinct, no list is empty, and the list
  under each key holds, in ascending order, the variables of the candidates with that key.
\<close>

definition grouped :: "(cand \<Rightarrow> 'k) \<Rightarrow> cand list \<Rightarrow> ('k \<times> var list) list \<Rightarrow> bool" where
  "grouped key cs m \<longleftrightarrow>
     distinct (map fst m)
     \<and> (\<forall>k. dd_get m k = filter (\<lambda>i. key (cs ! i) = k) [0..<length cs])
     \<and> (\<forall>(k, vs) \<in> set m. vs \<noteq> [])"

text \<open>\<^verbatim>\<open>vars_by_team_date[t][d]\<close>, read without inserting.\<close>

definition team_date_vars ::
  "(Team \<times> (date \<times> var list) list) list \<Rightarrow> Team \<Rightarrow> date \<Rightarrow> var list" where
  "team_date_vars m t d = (case map_of m t of None \<Rightarrow> [] | Some inner \<Rightarrow> dd_get inner d)"

text \<open>The variables that the extraction loop finds true, in the order it visits them.\<close>

definition true_vars :: "cand list \<Rightarrow> (var \<Rightarrow> bool) \<Rightarrow> var list" where
  "true_vars cs boolean_value =
     filter boolean_value (concat (map snd (vars_by_fixture_date (built cs))))"

subsection \<open>Concrete parameters\<close>

text \<open>
  The two teams and the parameters of \<^verbatim>\<open>test_simple_impossible_constraint\<close>; 739252 is the
  day number of 1 January 2025.
\<close>

definition team_a :: Team where
  "team_a = \<lparr>division = 1, club = ''Test Club A'', index = 1\<rparr>"

definition team_b :: Team where
  "team_b = \<lparr>division = 1, club = ''Test Club B'', index = 1\<rparr>"

definition fixture_ab :: Fixture where
  "fixture_ab = \<lparr>home_team = team_a, away_team = team_b\<rparr>"

definition fixture_ba :: Fixture where
  "fixture_ba = \<lparr>home_team = team_b, away_team = team_a\<rparr>"

definition impossible_params :: Parameters where
  "impossible_params =
     \<lparr>teams = [team_a, team_b],
      home_dates = [''Test Club A'' \<mapsto> [739252], ''Test Club B'' \<mapsto> [739253]],
      unavailable_away_dates = [''Test Club A'' \<mapsto> [739253], ''Test Club B'' \<mapsto> [739252]],
      min_gap_days = 7,
      max_concurrent_home_matches = 1\<rparr>"

text \<open>
  A feasible season of the same two teams: A can host on days 1 and 5, B on days 2 and 9,
  and A cannot travel on day 2.
\<close>

definition two_leg_params :: Parameters where
  "two_leg_params =
     \<lparr>teams = [team_a, team_b],
      home_dates = [''Test Club A'' \<mapsto> [1, 5], ''Test Club B'' \<mapsto> [2, 9]],
      unavailable_away_dates = [''Test Club A'' \<mapsto> [2]],
      min_gap_days = 7,
      max_concurrent_home_matches = 1\<rparr>"

definition two_leg_schedule :: "ScheduledFixture list" where
  "two_leg_schedule =
     [\<lparr>fixture = fixture_ab, date = 1\<rparr>, \<lparr>fixture = fixture_ba, date = 9\<rparr>]"

text \<open>B can host A on day 8, and A can host only on day 1, when B cannot travel.\<close>

definition one_leg_params :: Parameters where
  "one_leg_params =
     \<lparr>teams = [team_a, team_b],
      home_dates = [''Test Club A'' \<mapsto> [1], ''Test Club B'' \<mapsto> [8]],
      unavailable_away_dates = [''Test Club B'' \<mapsto> [1]],
      min_gap_days = 7,
      max_concurrent_home_matches = 1\<rparr>"

text \<open>A single team and a negative host capacity.\<close>

definition lone_team_params :: Parameters where
  "lone_team_params =
     \<lparr>teams = [team_a],
      home_dates = [''Test Club A'' \<mapsto> [1]],
      unavailable_away_dates = Map.empty,
      min_gap_days = 7,
      max_concurrent_home_matches = - 1\<rparr>"




section \<open>Properties of the window partitioner\<close>

lemma takeWhile_sorted_mem:
  fixes b :: int
  assumes "sorted xs" "b \<in> set xs" "\<And>e. e \<le> b \<Longrightarrow> P e"
  shows "b \<in> set (takeWhile P xs)"
  using assms by (induction xs) auto

lemma anchored_windows_finite:
  "w \<in> set (anchored_windows xs wd) \<Longrightarrow> finite w \<and> w \<noteq> {}"
  by (induction xs) auto

lemma anchored_windows_cover:
  "d \<in> set xs \<Longrightarrow> \<exists>w \<in> set (anchored_windows xs wd). d \<in> w"
  by (induction xs) auto

lemma anchored_windows_span:
  assumes "sorted xs" "0 \<le> wd" "w \<in> set (anchored_windows xs wd)" "a \<in> w" "b \<in> w"
  shows "b - a \<le> wd"
  using assms
proof (induction xs)
  case Nil
  then show ?case by simp
next
  case (Cons d later)
  show ?case
  proof (cases "w = insert d (set (takeWhile (\<lambda>e. e - d \<le> wd) later))")
    case True
    have lo: "d \<le> x" if "x \<in> w" for x
      using that True Cons.prems(1) by (auto dest: set_takeWhileD)
    have hi: "x - d \<le> wd" if "x \<in> w" for x
      using that True Cons.prems(2) by (auto dest: set_takeWhileD)
    from lo[OF Cons.prems(4)] hi[OF Cons.prems(5)] show ?thesis by linarith
  next
    case False
    with Cons.prems have "w \<in> set (anchored_windows later wd)" by simp
    with Cons show ?thesis by simp
  qed
qed

lemma anchored_windows_pair:
  assumes "sorted xs" "a \<in> set xs" "b \<in> set xs" "a \<le> b" "b - a \<le> wd"
  shows "\<exists>w \<in> set (anchored_windows xs wd). a \<in> w \<and> b \<in> w"
  using assms
proof (induction xs)
  case Nil
  then show ?case by simp
next
  case (Cons d later)
  show ?case
  proof (cases "a = d")
    case True
    have "b \<in> insert d (set (takeWhile (\<lambda>e. e - d \<le> wd) later))"
    proof (cases "b = d")
      case False
      with Cons.prems have "b \<in> set later" by simp
      moreover have "sorted later" using Cons.prems by simp
      ultimately have "b \<in> set (takeWhile (\<lambda>e. e - d \<le> wd) later)"
        using Cons.prems(5) True by (intro takeWhile_sorted_mem) auto
      then show ?thesis by simp
    qed simp
    with True show ?thesis by auto
  next
    case False
    with Cons.prems have a: "a \<in> set later" by simp
    have "d \<le> a" using Cons.prems(1) a by auto
    with False Cons.prems(4) have "b \<noteq> d" by linarith
    with Cons.prems have "b \<in> set later" by simp
    with Cons a have "\<exists>w \<in> set (anchored_windows later wd). a \<in> w \<and> b \<in> w" by simp
    then show ?thesis by auto
  qed
qed

lemma keep_maximal_subset:
  "set (keep_maximal acc ws) \<subseteq> set acc \<union> set ws"
  by (induction acc ws rule: keep_maximal.induct) (auto split: if_splits)

lemma keep_maximal_acc:
  "set acc \<subseteq> set (keep_maximal acc ws)"
  by (induction acc ws rule: keep_maximal.induct) (auto split: if_splits)

lemma keep_maximal_dominates:
  "w \<in> set acc \<union> set ws \<Longrightarrow> \<exists>r \<in> set (keep_maximal acc ws). w \<subseteq> r"
proof (induction acc ws rule: keep_maximal.induct)
  case (1 result)
  then show ?case by auto
next
  case (2 result window rest)
  show ?case
  proof (cases "list_ex (\<lambda>w. window \<subseteq> w) result")
    case True
    then obtain r where r: "r \<in> set result" "window \<subseteq> r" by (auto simp: list_ex_iff)
    show ?thesis
    proof (cases "w = window")
      case True
      from r keep_maximal_acc[of result rest] have "r \<in> set (keep_maximal result rest)" by auto
      with r True \<open>list_ex (\<lambda>w. window \<subseteq> w) result\<close> show ?thesis by auto
    next
      case False
      with "2.prems" have "w \<in> set result \<union> set rest" by auto
      with "2.IH"(2) True show ?thesis by simp
    qed
  next
    case False
    from "2.prems" have "w \<in> set (result @ [window]) \<union> set rest" by auto
    with "2.IH"(1) False show ?thesis by simp
  qed
qed

lemma antichain_snoc:
  assumes "antichain acc" "\<forall>r \<in> set acc. \<not> w \<subseteq> r \<and> \<not> r \<subseteq> w"
  shows "antichain (acc @ [w])"
  unfolding antichain_def
proof (intro allI impI)
  fix i j assume ij: "i < length (acc @ [w])" "j < length (acc @ [w])" "i \<noteq> j"
  show "\<not> (acc @ [w]) ! i \<subseteq> (acc @ [w]) ! j"
  proof (cases "i < length acc")
    case True
    note i = this
    show ?thesis
    proof (cases "j < length acc")
      case True
      with i ij assms(1) show ?thesis by (simp add: antichain_def nth_append)
    next
      case False
      with ij have "j = length acc" by simp
      with i assms(2) show ?thesis by (auto simp: nth_append)
    qed
  next
    case False
    with ij have i: "i = length acc" by simp
    with ij have "j < length acc" by simp
    with i assms(2) show ?thesis by (auto simp: nth_append)
  qed
qed

lemma keep_maximal_antichain:
  assumes "antichain acc"
    and "sorted (map (\<lambda>w. - int (card w)) ws)"
    and "\<forall>r \<in> set acc. \<forall>w \<in> set ws. card w \<le> card r"
    and "\<forall>r \<in> set acc. finite r"
    and "\<forall>w \<in> set ws. finite w"
  shows "antichain (keep_maximal acc ws)"
  using assms
proof (induction acc ws rule: keep_maximal.induct)
  case (1 result)
  then show ?case by simp
next
  case (2 result window rest)
  have sorted_rest: "sorted (map (\<lambda>w. - int (card w)) rest)"
    and le_window: "\<forall>w \<in> set rest. card w \<le> card window"
    using "2.prems"(2) by auto
  show ?case
  proof (cases "list_ex (\<lambda>w. window \<subseteq> w) result")
    case True
    with "2.IH"(2) "2.prems" sorted_rest show ?thesis by simp
  next
    case False
    have "\<forall>r \<in> set result. \<not> window \<subseteq> r \<and> \<not> r \<subseteq> window"
    proof
      fix r assume r: "r \<in> set result"
      with False have n: "\<not> window \<subseteq> r" by (auto simp: list_ex_iff)
      have "\<not> r \<subseteq> window"
      proof
        assume sub: "r \<subseteq> window"
        have "finite window" using "2.prems"(5) by simp
        moreover have "card window \<le> card r" using "2.prems"(3) r by simp
        ultimately have "r = window" using sub by (simp add: card_seteq)
        with n show False by simp
      qed
      with n show "\<not> window \<subseteq> r \<and> \<not> r \<subseteq> window" by simp
    qed
    with "2.prems"(1) have "antichain (result @ [window])" by (rule antichain_snoc)
    moreover have "\<forall>r \<in> set (result @ [window]). \<forall>w \<in> set rest. card w \<le> card r"
      using "2.prems"(3) le_window by auto
    moreover have "\<forall>r \<in> set (result @ [window]). finite r"
      using "2.prems"(4,5) by auto
    ultimately have "antichain (keep_maximal (result @ [window]) rest)"
      using "2.IH"(1) False sorted_rest "2.prems"(5) by simp
    with False show ?thesis by simp
  qed
qed

lemma date_windows_sub_anchored:
  "set (date_windows ds wd) \<subseteq> set (anchored_windows (sort ds) wd)"
  using keep_maximal_subset[of "[]"] by (fastforce simp: date_windows_def)

lemma date_windows_dominates:
  "w \<in> set (anchored_windows (sort ds) wd) \<Longrightarrow> \<exists>r \<in> set (date_windows ds wd). w \<subseteq> r"
  unfolding date_windows_def by (rule keep_maximal_dominates) simp

lemma date_windows_antichain: "antichain (date_windows ds wd)"
  unfolding date_windows_def
  by (rule keep_maximal_antichain)
     (auto simp: antichain_def dest: anchored_windows_finite)

lemma date_windows_pair:
  assumes "a \<in> set ds" "b \<in> set ds" "\<bar>a - b\<bar> \<le> wd"
  shows "\<exists>w \<in> set (date_windows ds wd). a \<in> w \<and> b \<in> w"
proof -
  have *: "\<exists>w \<in> set (date_windows ds wd). x \<in> w \<and> y \<in> w"
    if "x \<in> set ds" "y \<in> set ds" "x \<le> y" "y - x \<le> wd" for x y
  proof -
    have "\<exists>w \<in> set (anchored_windows (sort ds) wd). x \<in> w \<and> y \<in> w"
      using that by (intro anchored_windows_pair) auto
    then obtain w where "w \<in> set (anchored_windows (sort ds) wd)" "x \<in> w" "y \<in> w" by blast
    with date_windows_dominates[of w ds wd] show ?thesis by blast
  qed
  show ?thesis
  proof (cases "a \<le> b")
    case True
    with assms *[of a b] show ?thesis by auto
  next
    case False
    with assms *[of b a] show ?thesis by auto
  qed
qed


text \<open>
  Claim C6. For every collection of dates and every non-negative \<open>window_days\<close>, the
  output of \<open>date_windows\<close> satisfies all three of: every input date appears in at least
  one returned set; the span of every returned set (its latest date minus its earliest
  date) is at most \<open>window_days\<close>; and no returned set is a subset of a returned set at
  another position.
\<close>

theorem date_windows_contract:
  assumes "0 \<le> window_days"
  shows "(\<forall>d \<in> set dates. \<exists>w \<in> set (date_windows dates window_days). d \<in> w)
       \<and> (\<forall>w \<in> set (date_windows dates window_days). Max w - Min w \<le> window_days)
       \<and> (\<forall>i < length (date_windows dates window_days).
            \<forall>j < length (date_windows dates window_days).
              i \<noteq> j \<longrightarrow> \<not> date_windows dates window_days ! i \<subseteq> date_windows dates window_days ! j)"
proof (intro conjI ballI)
  fix d assume "d \<in> set dates"
  then have "\<exists>w \<in> set (date_windows dates window_days). d \<in> w \<and> d \<in> w"
    using assms by (intro date_windows_pair) auto
  then show "\<exists>w \<in> set (date_windows dates window_days). d \<in> w" by blast
next
  fix w assume "w \<in> set (date_windows dates window_days)"
  then have w: "w \<in> set (anchored_windows (sort dates) window_days)"
    using date_windows_sub_anchored by blast
  then have fin: "finite w" "w \<noteq> {}" using anchored_windows_finite by blast+
  then have "Min w \<in> w" "Max w \<in> w" by simp_all
  with w assms show "Max w - Min w \<le> window_days"
    by (intro anchored_windows_span[of "sort dates"]) auto
next
  show "\<forall>i < length (date_windows dates window_days).
            \<forall>j < length (date_windows dates window_days).
              i \<noteq> j \<longrightarrow> \<not> date_windows dates window_days ! i \<subseteq> date_windows dates window_days ! j"
    using date_windows_antichain[of dates window_days] by (simp add: antichain_def)
qed

theorem date_windows_contract_witness:
  "(0::int) \<le> 5
   \<and> date_windows [1, 3, 8] 5 = [{1, 3}, {3, 8}]
   \<and> list_all (\<lambda>d. \<exists>w \<in> set (date_windows [1, 3, 8] 5). d \<in> w) [1, 3, 8]
   \<and> list_all (\<lambda>w. Max w - Min w \<le> 5) (date_windows [1, 3, 8] 5)
   \<and> \<not> date_windows [1, 3, 8] 5 ! 0 \<subseteq> date_windows [1, 3, 8] 5 ! 1"
proof -
  have h: "(0::int) \<le> 5" by simp
  have v: "date_windows [1, 3, 8] 5 = [{1, 3}, {3, 8}]" by code_simp
  from date_windows_contract[OF h, of "[1, 3, 8]"] h v show ?thesis
    by (simp add: list_all_iff)
qed

text \<open>
  Claim C5. For any two input dates whose separation is at most \<open>window_days\<close>, at least
  one window returned by \<open>date_windows\<close> contains both; consequently a selection of input
  dates that takes at most one date from every returned window contains no two different
  dates closer than \<open>window_days + 1\<close> days apart.
\<close>

theorem date_windows_pair_cover:
  "(\<forall>a \<in> set dates. \<forall>b \<in> set dates. \<bar>a - b\<bar> \<le> window_days \<longrightarrow>
      (\<exists>w \<in> set (date_windows dates window_days). a \<in> w \<and> b \<in> w))
   \<and> (\<forall>S. S \<subseteq> set dates \<and> (\<forall>w \<in> set (date_windows dates window_days). card (S \<inter> w) \<le> 1) \<longrightarrow>
        (\<forall>a \<in> S. \<forall>b \<in> S. a \<noteq> b \<longrightarrow> window_days + 1 \<le> \<bar>a - b\<bar>))"
proof (intro conjI allI impI ballI)
  fix a b assume "a \<in> set dates" "b \<in> set dates" "\<bar>a - b\<bar> \<le> window_days"
  then show "\<exists>w \<in> set (date_windows dates window_days). a \<in> w \<and> b \<in> w"
    by (rule date_windows_pair)
next
  fix S a b
  assume S: "S \<subseteq> set dates \<and> (\<forall>w \<in> set (date_windows dates window_days). card (S \<inter> w) \<le> 1)"
    and ab: "a \<in> S" "b \<in> S" "a \<noteq> b"
  show "window_days + 1 \<le> \<bar>a - b\<bar>"
  proof (rule ccontr)
    assume "\<not> window_days + 1 \<le> \<bar>a - b\<bar>"
    then have "\<bar>a - b\<bar> \<le> window_days" by simp
    moreover have "a \<in> set dates" "b \<in> set dates" using S ab by auto
    ultimately obtain w where w: "w \<in> set (date_windows dates window_days)" "a \<in> w" "b \<in> w"
      using date_windows_pair by blast
    then have "w \<in> set (anchored_windows (sort dates) window_days)"
      using date_windows_sub_anchored by blast
    then have "finite (S \<inter> w)" using anchored_windows_finite by blast
    moreover have "{a, b} \<subseteq> S \<inter> w" using ab w by simp
    ultimately have "card {a, b} \<le> card (S \<inter> w)" by (rule card_mono)
    moreover have "card {a, b} = 2" using ab by simp
    ultimately show False using S w(1) by fastforce
  qed
qed

theorem date_windows_pair_cover_witness:
  "(1::int) \<in> set [1, 3, 8] \<and> (3::int) \<in> set [1, 3, 8] \<and> \<bar>1 - 3\<bar> \<le> (5::int)
   \<and> (\<exists>w \<in> set (date_windows [1, 3, 8] 5). 1 \<in> w \<and> 3 \<in> w)
   \<and> {1, 8} \<subseteq> set [1, 3, 8::int]
   \<and> list_all (\<lambda>w. card ({1, 8} \<inter> w) \<le> 1) (date_windows [1, 3, 8] 5)
   \<and> (5::int) + 1 \<le> \<bar>1 - 8\<bar>"
proof -
  have v: "date_windows [1, 3, 8] 5 = [{1, 3}, {3, 8}]" by code_simp
  have c: "\<forall>w \<in> set (date_windows [1, 3, 8] 5). card ({1, 8} \<inter> w) \<le> 1"
    unfolding v by simp
  from date_windows_pair_cover[of "[1, 3, 8]" 5] c show ?thesis
    by (simp add: list_all_iff)
qed


section \<open>Properties of the constraint builder\<close>

subsection \<open>The loops visit the candidate list\<close>

lemma dates_loop_foldl:
  "dates_loop p h a ds st =
     foldl add_cand st (map (\<lambda>d. (h, a, d)) (filter (\<lambda>d. d \<notin> set (away_blackout p (club a))) ds))"
  by (induction ds arbitrary: st) (simp_all add: add_cand_def)

lemma pairs_loop_ok:
  assumes "\<forall>(h, a) \<in> set prs. home_dates p (club h) \<noteq> None"
  shows "pairs_loop p prs st = Inr (foldl add_cand st (pair_cands p prs))"
  using assms
proof (induction prs arbitrary: st)
  case Nil
  then show ?case by (simp add: pair_cands_def)
next
  case (Cons pr prs)
  obtain h a where pr: "pr = (h, a)" by (cases pr)
  with Cons.prems obtain ds where ds: "home_dates p (club h) = Some ds" by auto
  have "pair_cands p (pr # prs)
      = map (\<lambda>d. (h, a, d)) (filter (\<lambda>d. d \<notin> set (away_blackout p (club a))) ds) @ pair_cands p prs"
    by (simp add: pair_cands_def pr eligible_dates_def home_list_def ds)
  moreover have "pairs_loop p prs (dates_loop p h a ds st)
      = Inr (foldl add_cand (dates_loop p h a ds st) (pair_cands p prs))"
    using Cons by simp
  ultimately show ?case by (simp add: pr ds dates_loop_foldl)
qed


lemma pairs_loop_Inr:
  assumes "pairs_loop p prs st = Inr st'"
  shows "(\<forall>(h, a) \<in> set prs. home_dates p (club h) \<noteq> None)
       \<and> st' = foldl add_cand st (pair_cands p prs)"
proof -
  have ok: "\<forall>(h, a) \<in> set prs. home_dates p (club h) \<noteq> None"
    using assms
  proof (induction prs arbitrary: st)
    case Nil
    then show ?case by simp
  next
    case (Cons pr prs)
    obtain h a where pr: "pr = (h, a)" by (cases pr)
    from Cons.prems pr obtain ds where ds: "home_dates p (club h) = Some ds"
      by (cases "home_dates p (club h)") auto
    with Cons.prems pr have "pairs_loop p prs (dates_loop p h a ds st) = Inr st'" by simp
    from Cons.IH[OF this] ds pr show ?case by simp
  qed
  with pairs_loop_ok[OF ok, of st] assms show ?thesis by simp
qed

lemma divisions_loop_Inr:
  assumes "divisions_loop p gs st = Inr st'"
  shows "(\<forall>(h, a) \<in> set (concat (map permutations2 gs)). home_dates p (club h) \<noteq> None)
       \<and> st' = foldl add_cand st (pair_cands p (concat (map permutations2 gs)))"
  using assms
proof (induction gs arbitrary: st)
  case Nil
  then show ?case by (simp add: pair_cands_def)
next
  case (Cons g gs)
  from Cons.prems obtain st1 where st1: "pairs_loop p (permutations2 g) st = Inr st1"
    and rest: "divisions_loop p gs st1 = Inr st'"
    by (auto split: sum.splits)
  from pairs_loop_Inr[OF st1] Cons.IH[OF rest] show ?case
    by (auto simp: pair_cands_def)
qed

lemma divisions_loop_ok:
  assumes "\<forall>(h, a) \<in> set (concat (map permutations2 gs)). home_dates p (club h) \<noteq> None"
  shows "divisions_loop p gs st = Inr (foldl add_cand st (pair_cands p (concat (map permutations2 gs))))"
  using assms
proof (induction gs arbitrary: st)
  case Nil
  then show ?case by (simp add: pair_cands_def)
next
  case (Cons g gs)
  have "pairs_loop p (permutations2 g) st = Inr (foldl add_cand st (pair_cands p (permutations2 g)))"
    using Cons.prems by (intro pairs_loop_ok) auto
  moreover have "divisions_loop p gs st1
      = Inr (foldl add_cand st1 (pair_cands p (concat (map permutations2 gs))))" for st1
    using Cons.prems by (intro Cons.IH) auto
  ultimately show ?case by (simp add: pair_cands_def)
qed


lemma build_variables_Inr:
  assumes "build_variables p = Inr st"
  shows "(\<forall>(h, a) \<in> set (all_pairs p). home_dates p (club h) \<noteq> None)"
    and "st = foldl add_cand empty_indices (candidates p)"
  using divisions_loop_Inr[OF assms[unfolded build_variables_def]]
  by (simp_all add: all_pairs_def candidates_def)

lemma build_variables_ok:
  assumes "\<forall>(h, a) \<in> set (all_pairs p). home_dates p (club h) \<noteq> None"
  shows "build_variables p = Inr (foldl add_cand empty_indices (candidates p))"
  unfolding build_variables_def candidates_def all_pairs_def
  by (rule divisions_loop_ok) (use assms in \<open>simp add: all_pairs_def\<close>)


subsection \<open>Insertion-ordered dictionaries\<close>

lemma dd_get_Nil: "dd_get [] k = []"
  by (simp add: dd_get_def)

lemma dd_get_Cons: "dd_get ((k', vs) # m) k = (if k = k' then vs else dd_get m k)"
  by (simp add: dd_get_def)

lemma dd_get_append:
  "dd_get (dd_append k v m) k' = (if k' = k then dd_get m k' @ [v] else dd_get m k')"
  by (induction m) (auto simp: dd_get_Nil dd_get_Cons)

lemma dd_append_key_set:
  "fst ` set (dd_append k v m) = insert k (fst ` set m)"
proof (induction m)
  case Nil
  then show ?case by simp
next
  case (Cons e m)
  obtain k' vs where e: "e = (k', vs)" by (cases e)
  show ?case
  proof (cases "k' = k")
    case True
    then show ?thesis by (simp add: e)
  next
    case False
    then show ?thesis by (simp add: e Cons.IH insert_commute)
  qed
qed

lemma dd_append_distinct:
  "distinct (map fst m) \<Longrightarrow> distinct (map fst (dd_append k v m))"
proof (induction m)
  case Nil
  then show ?case by simp
next
  case (Cons e m)
  obtain k' vs where e: "e = (k', vs)" by (cases e)
  show ?case
  proof (cases "k' = k")
    case True
    with Cons.prems e show ?thesis by simp
  next
    case False
    have "k' \<notin> fst ` set (dd_append k v m)"
      using Cons.prems e False by (simp add: dd_append_key_set)
    with Cons e False show ?thesis by simp
  qed
qed

lemma dd_append_nonempty:
  "(k, vs) \<in> set (dd_append k' v m) \<Longrightarrow> \<forall>(k, vs) \<in> set m. vs \<noteq> [] \<Longrightarrow> vs \<noteq> []"
  by (induction m) (auto split: if_splits)

lemma dd_append_flat_set:
  "(\<Union>e \<in> set (dd_append k v m). set (snd e)) = insert v (\<Union>e \<in> set m. set (snd e))"
proof (induction m)
  case Nil
  then show ?case by simp
next
  case (Cons e m)
  obtain k' vs where e: "e = (k', vs)" by (cases e)
  show ?case
  proof (cases "k' = k")
    case True
    then show ?thesis by (simp add: e)
  next
    case False
    then show ?thesis by (simp add: e Cons.IH Un_insert_right)
  qed
qed

lemma dd_append_flat_distinct:
  "distinct (concat (map snd m)) \<Longrightarrow> v \<notin> (\<Union>e \<in> set m. set (snd e))
     \<Longrightarrow> distinct (concat (map snd (dd_append k v m)))"
proof (induction m)
  case Nil
  then show ?case by simp
next
  case (Cons e m)
  obtain k' vs where e: "e = (k', vs)" by (cases e)
  show ?case
  proof (cases "k' = k")
    case True
    with Cons.prems e show ?thesis by auto
  next
    case False
    have "distinct (concat (map snd (dd_append k v m)))"
      using Cons by simp
    moreover have "set vs \<inter> (\<Union>e \<in> set (dd_append k v m). set (snd e)) = {}"
      using Cons.prems e unfolding dd_append_flat_set by auto
    ultimately show ?thesis using Cons.prems e False by simp
  qed
qed

lemma dd_get_entry:
  "distinct (map fst m) \<Longrightarrow> (k, vs) \<in> set m \<Longrightarrow> dd_get m k = vs"
  by (simp add: dd_get_def)

lemma dd_get_nonempty_key:
  assumes "dd_get m k \<noteq> []"
  shows "(k, dd_get m k) \<in> set m"
proof (cases "map_of m k")
  case None
  with assms show ?thesis by (simp add: dd_get_def)
next
  case (Some vs)
  then show ?thesis by (simp add: dd_get_def map_of_SomeD)
qed

lemma team_date_vars_append2:
  "team_date_vars (dd_append2 t' d' v m) t d
     = (if t = t' \<and> d = d' then team_date_vars m t d @ [v] else team_date_vars m t d)"
  by (induction m) (auto simp: team_date_vars_def dd_get_append dd_get_Nil dd_get_Cons)

subsection \<open>The indices after a list of candidates\<close>

lemma grouped_empty: "grouped key [] []"
  by (simp add: grouped_def dd_get_def)

lemma grouped_step:
  assumes "grouped key cs m"
  shows "grouped key (cs @ [c]) (dd_append (key c) (length cs) m)"
proof -
  have f: "filter (\<lambda>i. key ((cs @ [c]) ! i) = k) [0..<length cs]
         = filter (\<lambda>i. key (cs ! i) = k) [0..<length cs]" for k
    by (rule filter_cong) (auto simp: nth_append)
  from assms show ?thesis
    unfolding grouped_def
    by (auto simp: dd_append_distinct dd_get_append f dest: dd_append_nonempty)
qed

lemma built_Nil: "built [] = empty_indices"
  by (simp add: built_def)

lemma built_snoc: "built (cs @ [c]) = add_cand (built cs) c"
  by (simp add: built_def)

lemma add_cand_sel:
  "num_vars (add_cand st c) = Suc (num_vars st)"
  "vars_by_fixture (add_cand st c) = dd_append (fx_of c) (num_vars st) (vars_by_fixture st)"
  "vars_by_fixture_date (add_cand st c)
     = dd_append (fx_of c, date_of c) (num_vars st) (vars_by_fixture_date st)"
  "vars_by_club_home_date (add_cand st c)
     = dd_append (host_of c, date_of c) (num_vars st) (vars_by_club_home_date st)"
  by (cases c; simp add: add_cand_def new_candidate_def fx_of_def date_of_def host_of_def Let_def)+

lemma built_num_vars: "num_vars (built cs) = length cs"
  by (induction cs rule: rev_induct) (simp_all add: built_Nil built_snoc add_cand_sel empty_indices_def)

lemma built_vars_by_fixture: "grouped fx_of cs (vars_by_fixture (built cs))"
proof (induction cs rule: rev_induct)
  case Nil
  then show ?case by (simp add: built_Nil empty_indices_def grouped_empty)
next
  case (snoc c cs)
  from grouped_step[OF snoc, of c] show ?case
    by (simp add: built_snoc add_cand_sel built_num_vars)
qed

lemma built_vars_by_fixture_date:
  "grouped (\<lambda>c. (fx_of c, date_of c)) cs (vars_by_fixture_date (built cs))"
proof (induction cs rule: rev_induct)
  case Nil
  then show ?case by (simp add: built_Nil empty_indices_def grouped_empty)
next
  case (snoc c cs)
  from grouped_step[OF snoc, of c] show ?case
    by (simp add: built_snoc add_cand_sel built_num_vars)
qed

lemma built_vars_by_club_home_date:
  "grouped (\<lambda>c. (host_of c, date_of c)) cs (vars_by_club_home_date (built cs))"
proof (induction cs rule: rev_induct)
  case Nil
  then show ?case by (simp add: built_Nil empty_indices_def grouped_empty)
next
  case (snoc c cs)
  from grouped_step[OF snoc, of c] show ?case
    by (simp add: built_snoc add_cand_sel built_num_vars)
qed

lemma built_flat:
  "distinct (concat (map snd (vars_by_fixture_date (built cs))))
   \<and> (\<Union>e \<in> set (vars_by_fixture_date (built cs)). set (snd e)) = {0..<length cs}"
proof (induction cs rule: rev_induct)
  case Nil
  then show ?case by (simp add: built_Nil empty_indices_def)
next
  case (snoc c cs)
  then have d: "distinct (concat (map snd (vars_by_fixture_date (built cs))))"
    and s: "(\<Union>e \<in> set (vars_by_fixture_date (built cs)). set (snd e)) = {0..<length cs}"
    by simp_all
  have "length cs \<notin> (\<Union>e \<in> set (vars_by_fixture_date (built cs)). set (snd e))"
    unfolding s by simp
  with d have "distinct (concat (map snd
      (dd_append (fx_of c, date_of c) (length cs) (vars_by_fixture_date (built cs)))))"
    by (rule dd_append_flat_distinct)
  moreover have "(\<Union>e \<in> set (dd_append (fx_of c, date_of c) (length cs)
      (vars_by_fixture_date (built cs))). set (snd e)) = {0..<length (cs @ [c])}"
    unfolding dd_append_flat_set s by (simp add: atLeast0_lessThan_Suc)
  ultimately show ?case
    by (simp only: built_snoc add_cand_sel built_num_vars)
qed

lemma team_date_vars_mono:
  "x \<in> set (team_date_vars m t d) \<Longrightarrow> x \<in> set (team_date_vars (dd_append2 t' d' v m) t d)"
  by (auto simp: team_date_vars_append2)

lemma team_date_vars_new:
  "v \<in> set (team_date_vars (dd_append2 t d v m) t d)"
  by (simp add: team_date_vars_append2)

lemma built_vars_by_team_date:
  assumes "i < length cs" "plays_in t (cs ! i)"
  shows "i \<in> set (team_date_vars (vars_by_team_date (built cs)) t (date_of (cs ! i)))"
  using assms
proof (induction cs rule: rev_induct)
  case Nil
  then show ?case by simp
next
  case (snoc c cs)
  obtain h a d where c: "c = (h, a, d)" by (cases c)
  have vtd: "vars_by_team_date (built (cs @ [c]))
      = dd_append2 a d (length cs) (dd_append2 h d (length cs) (vars_by_team_date (built cs)))"
    by (simp add: built_snoc add_cand_def new_candidate_def c Let_def built_num_vars)
  show ?case
  proof (cases "i < length cs")
    case True
    with snoc have "i \<in> set (team_date_vars (vars_by_team_date (built cs)) t (date_of (cs ! i)))"
      by (simp add: nth_append)
    then have "i \<in> set (team_date_vars (vars_by_team_date (built (cs @ [c]))) t (date_of (cs ! i)))"
      unfolding vtd by (intro team_date_vars_mono)
    with True show ?thesis by (simp add: nth_append)
  next
    case False
    with snoc.prems have i: "i = length cs" by simp
    with snoc.prems c have "h = t \<or> a = t" by (simp add: plays_in_def)
    then have "length cs \<in> set (team_date_vars (vars_by_team_date (built (cs @ [c]))) t d)"
      unfolding vtd using team_date_vars_new team_date_vars_mono by blast
    then show ?thesis by (simp add: i c date_of_def)
  qed
qed

subsection \<open>The extracted schedule and the true variables\<close>

lemma var_sum_length: "var_sum val vs = int (length (filter val vs))"
  by (induction vs) simp_all

lemma grouped_entry:
  assumes "grouped key cs m" "(k, vs) \<in> set m"
  shows "vs = filter (\<lambda>i. key (cs ! i) = k) [0..<length cs]" "vs \<noteq> []"
proof -
  from assms(1) have "distinct (map fst m)" unfolding grouped_def by blast
  then have "dd_get m k = vs" using assms(2) by (rule dd_get_entry)
  moreover from assms(1) have "dd_get m k = filter (\<lambda>i. key (cs ! i) = k) [0..<length cs]"
    unfolding grouped_def by blast
  ultimately show "vs = filter (\<lambda>i. key (cs ! i) = k) [0..<length cs]"
    by simp
  from assms show "vs \<noteq> []" by (auto simp: grouped_def)
qed

lemma grouped_key_iff:
  assumes "grouped key cs m"
  shows "(\<exists>vs. (k, vs) \<in> set m) \<longleftrightarrow> (\<exists>i < length cs. key (cs ! i) = k)"
proof
  assume "\<exists>vs. (k, vs) \<in> set m"
  then obtain vs where vs: "(k, vs) \<in> set m" by blast
  from grouped_entry[OF assms vs] have "set (filter (\<lambda>i. key (cs ! i) = k) [0..<length cs]) \<noteq> {}"
    by (simp del: set_filter filter_False)
  then show "\<exists>i < length cs. key (cs ! i) = k" by auto
next
  assume "\<exists>i < length cs. key (cs ! i) = k"
  then obtain i where i: "i < length cs" "key (cs ! i) = k" by blast
  from assms have eq: "dd_get m k = filter (\<lambda>i. key (cs ! i) = k) [0..<length cs]"
    unfolding grouped_def by blast
  have "i \<in> set (dd_get m k)" unfolding eq using i by simp
  then have "dd_get m k \<noteq> []" by auto
  then show "\<exists>vs. (k, vs) \<in> set m" by (blast dest: dd_get_nonempty_key)
qed

lemma concat_map_keyed:
  assumes "\<forall>(k, vs) \<in> set m. \<forall>v \<in> set vs. g v = f k"
  shows "concat (map (\<lambda>(k, vs). map (\<lambda>v. f k) (filter P vs)) m)
       = map g (filter P (concat (map snd m)))"
  using assms by (induction m) (auto intro!: map_cong)

lemma extract_schedule_built:
  "extract_schedule (built cs) val = map (\<lambda>v. sf_of (cs ! v)) (true_vars cs val)"
proof -
  let ?m = "vars_by_fixture_date (built cs)"
  let ?f = "\<lambda>k. \<lparr>fixture = fst k, date = snd k\<rparr>"
  have keyed: "\<forall>(k, vs) \<in> set ?m. \<forall>v \<in> set vs. sf_of (cs ! v) = ?f k"
  proof (clarify)
    fix fx d vs v assume e: "((fx, d), vs) \<in> set ?m" and v: "v \<in> set vs"
    from grouped_entry(1)[OF built_vars_by_fixture_date e] v
    have "(fx_of (cs ! v), date_of (cs ! v)) = (fx, d)" by simp
    then show "sf_of (cs ! v) = ?f (fx, d)" by (simp add: sf_of_def)
  qed
  have "extract_schedule (built cs) val
      = concat (map (\<lambda>(k, vs). map (\<lambda>v. ?f k) (filter val vs)) ?m)"
    unfolding extract_schedule_def by (rule arg_cong[where f = concat]) (auto simp: split_def)
  also have "\<dots> = map (\<lambda>v. sf_of (cs ! v)) (filter val (concat (map snd ?m)))"
    by (rule concat_map_keyed[OF keyed])
  finally show ?thesis by (simp add: true_vars_def)
qed

lemma true_vars_distinct: "distinct (true_vars cs val)"
  using built_flat[of cs] by (simp add: true_vars_def)

lemma true_vars_set: "set (true_vars cs val) = {v. v < length cs \<and> val v}"
  using built_flat[of cs] by (auto simp: true_vars_def)

lemma true_vars_count:
  "length (filter Q (true_vars cs val)) = length (filter val (filter Q [0..<length cs]))"
proof -
  have "length (filter Q (true_vars cs val)) = card ({v. Q v} \<inter> set (true_vars cs val))"
    by (rule distinct_length_filter[OF true_vars_distinct])
  also have "{v. Q v} \<inter> set (true_vars cs val) = {v. val v} \<inter> set (filter Q [0..<length cs])"
    by (auto simp: true_vars_set)
  also have "card \<dots> = length (filter val (filter Q [0..<length cs]))"
    by (rule distinct_length_filter[symmetric]) simp
  finally show ?thesis .
qed

lemma capacity_loop_Inr:
  "capacity_loop b m = Inr cs \<Longrightarrow> cs = map (\<lambda>(k, vs). SumLe vs b) m"
  by (induction m arbitrary: cs) (auto simp: sum_le_def split: sum.splits if_splits)

lemma capacity_loop_ok:
  "m = [] \<or> (- (2 ^ 63) < b \<and> b < 2 ^ 63) \<Longrightarrow> capacity_loop b m = Inr (map (\<lambda>(k, vs). SumLe vs b) m)"
  by (induction m) (auto simp: sum_le_def)


lemma capacity_constraints_Inr:
  "capacity_constraints p st = Inr cs \<Longrightarrow> cs = capacity_list p st"
  unfolding capacity_constraints_def capacity_list_def by (rule capacity_loop_Inr)

lemma solve_built:
  assumes "build_variables p = Inr st" and "capacity_constraints p st = Inr cap"
  shows "solve solver p =
           (if fst (solver (num_vars st) (model_constraints p st)) \<in> {OPTIMAL, FEASIBLE}
            then Inr (extract_schedule st (snd (solver (num_vars st) (model_constraints p st))))
            else Inl (ValueError ''No solution found''))"
proof -
  from capacity_constraints_Inr[OF assms(2)]
  have m: "coverage_constraints st @ rest_constraints p st @ cap = model_constraints p st"
    by (simp add: model_constraints_def)
  show ?thesis
    by (simp add: solve_def assms m case_prod_beta)
qed

lemma solve_InrD:
  assumes "solve solver p = Inr res"
  shows "build_variables p = Inr (built (candidates p))"
    and "fst (solver (length (candidates p)) (model_constraints p (built (candidates p))))
           \<in> {OPTIMAL, FEASIBLE}"
    and "res = extract_schedule (built (candidates p))
           (snd (solver (length (candidates p)) (model_constraints p (built (candidates p)))))"
proof -
  from assms obtain st where st: "build_variables p = Inr st"
    by (auto simp: solve_def split: sum.splits)
  from build_variables_Inr(2)[OF st] have eq: "st = built (candidates p)"
    by (simp add: built_def)
  with st show "build_variables p = Inr (built (candidates p))" by simp
  from assms st obtain cap where cap: "capacity_constraints p st = Inr cap"
    by (auto simp: solve_def split: sum.splits)
  obtain code val where r: "solver (num_vars st) (model_constraints p st) = (code, val)"
    by (cases "solver (num_vars st) (model_constraints p st)")
  from solve_built[OF st cap, of solver] assms r
  have "code \<in> {OPTIMAL, FEASIBLE}" and "res = extract_schedule st val"
    by (auto split: if_splits)
  with r eq
  show "fst (solver (length (candidates p)) (model_constraints p (built (candidates p))))
           \<in> {OPTIMAL, FEASIBLE}"
    and "res = extract_schedule (built (candidates p))
           (snd (solver (length (candidates p)) (model_constraints p (built (candidates p)))))"
    by (simp_all add: built_num_vars)
qed

lemma solve_sound_holds:
  assumes "engine_sound solver" "solve solver p = Inr res"
    and "c \<in> set (model_constraints p (built (candidates p)))"
  shows "holds (snd (solver (length (candidates p)) (model_constraints p (built (candidates p))))) c"
  using assms(1) solve_InrD(2)[OF assms(2)] assms(3)
  unfolding engine_sound_def list_all_iff by blast

subsection \<open>Divisions, pairings and candidates\<close>

lemma teams_by_division_snoc:
  "teams_by_division (ts @ [t]) = dd_append (division t) t (teams_by_division ts)"
  by (simp add: teams_by_division_def)

lemma teams_by_division_get:
  "dd_get (teams_by_division ts) v = filter (\<lambda>t. division t = v) ts"
  by (induction ts rule: rev_induct)
     (auto simp: teams_by_division_snoc dd_get_append teams_by_division_def dd_get_Nil)

lemma teams_by_division_distinct: "distinct (map fst (teams_by_division ts))"
  by (induction ts rule: rev_induct)
     (simp_all add: teams_by_division_snoc dd_append_distinct teams_by_division_def)

lemma teams_by_division_entry:
  assumes "(v, g) \<in> set (teams_by_division ts)"
  shows "g = filter (\<lambda>t. division t = v) ts"
  using dd_get_entry[OF teams_by_division_distinct assms] by (simp add: teams_by_division_get)

lemma teams_by_division_has:
  assumes "t \<in> set ts"
  shows "(division t, filter (\<lambda>u. division u = division t) ts) \<in> set (teams_by_division ts)"
proof -
  have "t \<in> set (dd_get (teams_by_division ts) (division t))"
    using assms by (simp add: teams_by_division_get)
  then have "dd_get (teams_by_division ts) (division t) \<noteq> []" by auto
  from dd_get_nonempty_key[OF this] show ?thesis by (simp add: teams_by_division_get)
qed

lemma permutations2_iff:
  "(x, y) \<in> set (permutations2 g) \<longleftrightarrow>
     (\<exists>i < length g. \<exists>j < length g. i \<noteq> j \<and> g ! i = x \<and> g ! j = y)"
  by (auto simp: permutations2_def)

lemma permutations2_neq:
  assumes "x \<noteq> y"
  shows "(x, y) \<in> set (permutations2 g) \<longleftrightarrow> x \<in> set g \<and> y \<in> set g"
proof
  assume "(x, y) \<in> set (permutations2 g)"
  then show "x \<in> set g \<and> y \<in> set g" by (auto simp: permutations2_iff)
next
  assume "x \<in> set g \<and> y \<in> set g"
  then obtain i j where "i < length g" "g ! i = x" "j < length g" "g ! j = y"
    by (auto simp: in_set_conv_nth)
  moreover with assms have "i \<noteq> j" by auto
  ultimately show "(x, y) \<in> set (permutations2 g)" unfolding permutations2_iff by blast
qed

lemma all_pairs_members:
  assumes "(h, a) \<in> set (all_pairs p)"
  shows "h \<in> set (teams p) \<and> a \<in> set (teams p) \<and> division h = division a"
proof -
  from assms obtain v g where e: "(v, g) \<in> set (teams_by_division (teams p))"
    and m: "(h, a) \<in> set (permutations2 g)"
    by (auto simp: all_pairs_def)
  from teams_by_division_entry[OF e] have g: "g = filter (\<lambda>t. division t = v) (teams p)" .
  from m have "h \<in> set g" "a \<in> set g" by (auto simp: permutations2_iff)
  then show ?thesis unfolding g by simp
qed

lemma all_pairs_neq_iff:
  assumes "h \<noteq> a"
  shows "(h, a) \<in> set (all_pairs p) \<longleftrightarrow>
           h \<in> set (teams p) \<and> a \<in> set (teams p) \<and> division h = division a"
proof
  assume "(h, a) \<in> set (all_pairs p)"
  then show "h \<in> set (teams p) \<and> a \<in> set (teams p) \<and> division h = division a"
    by (rule all_pairs_members)
next
  assume r: "h \<in> set (teams p) \<and> a \<in> set (teams p) \<and> division h = division a"
  let ?g = "filter (\<lambda>u. division u = division h) (teams p)"
  from r have "(division h, ?g) \<in> set (teams_by_division (teams p))"
    by (simp add: teams_by_division_has)
  moreover have "(h, a) \<in> set (permutations2 ?g)"
    using r assms by (simp add: permutations2_neq)
  ultimately show "(h, a) \<in> set (all_pairs p)"
    unfolding all_pairs_def by force
qed

lemma candidates_iff:
  "(h, a, d) \<in> set (candidates p) \<longleftrightarrow>
     (h, a) \<in> set (all_pairs p) \<and> d \<in> set (eligible_dates p h a)"
  by (auto simp: candidates_def pair_cands_def)

lemma fixture_has_candidate:
  "(\<exists>i < length (candidates p). fx_of (candidates p ! i) = fx) \<longleftrightarrow>
     (home_team fx, away_team fx) \<in> set (all_pairs p)
     \<and> eligible_dates p (home_team fx) (away_team fx) \<noteq> []"
proof
  assume "\<exists>i < length (candidates p). fx_of (candidates p ! i) = fx"
  then obtain i where i: "i < length (candidates p)" "fx_of (candidates p ! i) = fx" by blast
  obtain h a d where c: "candidates p ! i = (h, a, d)" by (cases "candidates p ! i")
  with i have "(h, a, d) \<in> set (candidates p)" by (metis nth_mem)
  then have "(h, a) \<in> set (all_pairs p)" "d \<in> set (eligible_dates p h a)"
    by (simp_all add: candidates_iff)
  moreover from i c have "home_team fx = h" "away_team fx = a" by (auto simp: fx_of_def)
  ultimately show "(home_team fx, away_team fx) \<in> set (all_pairs p)
     \<and> eligible_dates p (home_team fx) (away_team fx) \<noteq> []" by auto
next
  assume r: "(home_team fx, away_team fx) \<in> set (all_pairs p)
     \<and> eligible_dates p (home_team fx) (away_team fx) \<noteq> []"
  then obtain d where "d \<in> set (eligible_dates p (home_team fx) (away_team fx))"
    by (cases "eligible_dates p (home_team fx) (away_team fx)") auto
  with r have "(home_team fx, away_team fx, d) \<in> set (candidates p)"
    by (simp add: candidates_iff)
  then obtain i where "i < length (candidates p)" "candidates p ! i = (home_team fx, away_team fx, d)"
    by (auto simp: in_set_conv_nth)
  then show "\<exists>i < length (candidates p). fx_of (candidates p ! i) = fx"
    by (auto simp: fx_of_def)
qed

subsection \<open>Dates and host capacity of a schedule\<close>

lemma sf_of_sel:
  "fixture (sf_of c) = fx_of c" "date (sf_of c) = date_of c"
  "club (home_team (fx_of c)) = host_of c"
  by (cases c; simp add: sf_of_def fx_of_def host_of_def)+

lemma solve_result:
  assumes "solve solver p = Inr res"
  shows "res = map (\<lambda>v. sf_of (candidates p ! v))
           (true_vars (candidates p)
              (snd (solver (length (candidates p)) (model_constraints p (built (candidates p))))))"
  using solve_InrD(3)[OF assms] by (simp add: extract_schedule_built)

lemma candidate_eligible:
  assumes "build_variables p = Inr st" "c \<in> set (candidates p)"
  shows "(\<exists>ds. home_dates p (host_of c) = Some ds \<and> date_of c \<in> set ds)
       \<and> date_of c \<notin> set (away_blackout p (club (away_team (fx_of c))))"
proof -
  obtain h a d where c: "c = (h, a, d)" by (cases c)
  with assms(2) have pr: "(h, a) \<in> set (all_pairs p)" and d: "d \<in> set (eligible_dates p h a)"
    by (simp_all add: candidates_iff)
  from build_variables_Inr(1)[OF assms(1)] pr obtain ds where ds: "home_dates p (club h) = Some ds"
    by auto
  with d show ?thesis
    by (simp add: c eligible_dates_def home_list_def host_of_def date_of_def fx_of_def)
qed

text \<open>
  Claim C7. Whenever \<open>solve\<close> returns a schedule, the date of every scheduled fixture is
  in the list of candidate home dates of the home team's club and is not in the list of
  unavailable away dates of the away team's club.
\<close>

theorem scheduled_dates_eligible:
  assumes "solve solver p = Inr res" and "sf \<in> set res"
  shows "(\<exists>ds. home_dates p (club (home_team (fixture sf))) = Some ds \<and> date sf \<in> set ds)
       \<and> (\<forall>us. unavailable_away_dates p (club (away_team (fixture sf))) = Some us
              \<longrightarrow> date sf \<notin> set us)"
proof -
  let ?cs = "candidates p"
  from assms(2) solve_result[OF assms(1)] obtain v where
    v: "v < length ?cs" and sf: "sf = sf_of (?cs ! v)"
    by (auto simp: true_vars_set)
  from v have "?cs ! v \<in> set ?cs" by simp
  from candidate_eligible[OF solve_InrD(1)[OF assms(1)] this] show ?thesis
    by (auto simp: sf sf_of_sel away_blackout_def)
qed

lemma count_as_var_sum:
  assumes "solve solver p = Inr res"
    and "\<And>i. Q (sf_of (candidates p ! i)) \<longleftrightarrow> key (candidates p ! i) = k"
    and "grouped key (candidates p) m"
  shows "int (length (filter Q res))
       = var_sum (snd (solver (length (candidates p)) (model_constraints p (built (candidates p)))))
           (dd_get m k)"
proof -
  let ?cs = "candidates p"
  let ?val = "snd (solver (length ?cs) (model_constraints p (built ?cs)))"
  have "length (filter Q res) = length (filter (\<lambda>v. key (?cs ! v) = k) (true_vars ?cs ?val))"
    unfolding solve_result[OF assms(1)] by (simp add: filter_map o_def assms(2))
  also have "\<dots> = length (filter ?val (filter (\<lambda>v. key (?cs ! v) = k) [0..<length ?cs]))"
    by (rule true_vars_count)
  also have "filter (\<lambda>v. key (?cs ! v) = k) [0..<length ?cs] = dd_get m k"
    using assms(3) unfolding grouped_def by simp
  finally show ?thesis by (simp add: var_sum_length)
qed

lemma hosted_on_bound:
  assumes "engine_sound solver" and "solve solver p = Inr res"
  shows "int (hosted_on c d res) \<le> max 0 (max_concurrent_home_matches p)"
proof -
  let ?cs = "candidates p"
  let ?st = "built ?cs"
  let ?val = "snd (solver (length ?cs) (model_constraints p ?st))"
  let ?vs = "dd_get (vars_by_club_home_date ?st) (c, d)"
  have cnt: "int (hosted_on c d res) = var_sum ?val ?vs"
    unfolding hosted_on_def
    by (rule count_as_var_sum[OF assms(2) _ built_vars_by_club_home_date])
       (auto simp: sf_of_sel)
  show ?thesis
  proof (cases "?vs = []")
    case True
    with cnt show ?thesis by simp
  next
    case False
    then have "((c, d), ?vs) \<in> set (vars_by_club_home_date ?st)" by (rule dd_get_nonempty_key)
    then have "SumLe ?vs (max_concurrent_home_matches p) \<in> set (model_constraints p ?st)"
      by (force simp: model_constraints_def capacity_list_def)
    from solve_sound_holds[OF assms this] cnt show ?thesis by simp
  qed
qed

text \<open>
  Claim C8, as amended. Whenever \<open>solve\<close> returns a schedule from a sound engine, the
  number of scheduled fixtures that a club hosts on a date is at most
  \<open>max_concurrent_home_matches\<close> when that number is not negative, and is zero when it
  is negative.
\<close>

theorem host_capacity_respected:
  assumes "engine_sound solver" and "solve solver p = Inr res"
  shows "int (hosted_on c d res) \<le> max 0 (max_concurrent_home_matches p)"
  using assms by (rule hosted_on_bound)

subsection \<open>Rest between the matches of a team\<close>

lemma date_windows_cover:
  assumes "d \<in> set ds"
  shows "\<exists>w \<in> set (date_windows ds wd). d \<in> w"
proof -
  from assms have "d \<in> set (sort ds)" by simp
  from anchored_windows_cover[OF this] obtain w where
    "w \<in> set (anchored_windows (sort ds) wd)" "d \<in> w" by blast
  with date_windows_dominates[of w ds wd] show ?thesis by blast
qed

lemma date_windows_finite: "w \<in> set (date_windows ds wd) \<Longrightarrow> finite w"
  using date_windows_sub_anchored anchored_windows_finite by blast

lemma team_date_vars_inner:
  assumes "v \<in> set (team_date_vars m t d)"
  shows "\<exists>inner. map_of m t = Some inner \<and> v \<in> set (dd_get inner d) \<and> d \<in> fst ` set inner"
proof (cases "map_of m t")
  case None
  with assms show ?thesis by (simp add: team_date_vars_def)
next
  case (Some inner)
  with assms have v: "v \<in> set (dd_get inner d)" by (simp add: team_date_vars_def)
  then have "dd_get inner d \<noteq> []" by auto
  then have "(d, dd_get inner d) \<in> set inner" by (rule dd_get_nonempty_key)
  then have "d \<in> fst ` set inner" by force
  with v Some show ?thesis by simp
qed

lemma var_sum_two:
  assumes "u \<in> set xs" "v \<in> set xs" "u \<noteq> v" "val u" "val v"
  shows "2 \<le> var_sum val xs"
proof -
  have "{u, v} \<subseteq> set (filter val xs)" using assms by simp
  then have "card {u, v} \<le> card (set (filter val xs))" by (intro card_mono) simp_all
  also have "\<dots> \<le> length (filter val xs)" by (rule card_length)
  finally show ?thesis using assms(3) by (simp add: var_sum_length)
qed

lemma window_vars_mem:
  assumes "finite w" "d \<in> w" "v \<in> set (dd_get inner d)"
  shows "v \<in> set (window_vars w inner)"
  using assms by (auto simp: window_vars_def)

lemma plays_sf_of: "plays t (sf_of c) \<longleftrightarrow> plays_in t c"
  by (cases c) (simp add: plays_def plays_in_def sf_of_def fx_of_def)

lemma rest_separation:
  assumes "engine_sound solver" and "solve solver p = Inr res"
    and "i < length res" "j < length res" "i \<noteq> j"
    and "plays t (res ! i)" "plays t (res ! j)"
  shows "date (res ! i) \<noteq> date (res ! j)
       \<and> \<not> \<bar>date (res ! i) - date (res ! j)\<bar> \<le> min_gap_days p"
proof -
  let ?cs = "candidates p"
  let ?st = "built ?cs"
  let ?val = "snd (solver (length ?cs) (model_constraints p ?st))"
  let ?L = "true_vars ?cs ?val"
  let ?m = "vars_by_team_date ?st"
  define u where "u = ?L ! i"
  define v where "v = ?L ! j"
  define du where "du = date_of (?cs ! u)"
  define dv where "dv = date_of (?cs ! v)"
  note res = solve_result[OF assms(2)]
  have len: "i < length ?L" "j < length ?L" using assms(3,4) res by simp_all
  have ri: "res ! i = sf_of (?cs ! u)" and rj: "res ! j = sf_of (?cs ! v)"
    using len unfolding u_def v_def by (subst res, simp)+
  have neq: "u \<noteq> v"
    unfolding u_def v_def using len assms(5) true_vars_distinct[of ?cs ?val]
    by (simp add: nth_eq_iff_index_eq)
  have "u \<in> set ?L" "v \<in> set ?L" unfolding u_def v_def using len by simp_all
  then have uv: "u < length ?cs" "?val u" "v < length ?cs" "?val v"
    by (simp_all add: true_vars_set)
  have pu: "plays_in t (?cs ! u)" and pv: "plays_in t (?cs ! v)"
    using assms(6,7) by (simp_all add: ri rj plays_sf_of)
  from built_vars_by_team_date[OF uv(1) pu] have "u \<in> set (team_date_vars ?m t du)"
    by (simp add: du_def)
  from team_date_vars_inner[OF this] obtain inner where
    inner: "map_of ?m t = Some inner" and u_in: "u \<in> set (dd_get inner du)"
    and du_key: "du \<in> set (map fst inner)" by auto
  from built_vars_by_team_date[OF uv(3) pv] have "v \<in> set (team_date_vars ?m t dv)"
    by (simp add: dv_def)
  from team_date_vars_inner[OF this] inner have
    v_in: "v \<in> set (dd_get inner dv)" and dv_key: "dv \<in> set (map fst inner)" by auto
  have no_window: "\<not> (\<exists>w \<in> set (date_windows (map fst inner) (min_gap_days p)). du \<in> w \<and> dv \<in> w)"
  proof
    assume "\<exists>w \<in> set (date_windows (map fst inner) (min_gap_days p)). du \<in> w \<and> dv \<in> w"
    then obtain w where w: "w \<in> set (date_windows (map fst inner) (min_gap_days p))"
      and dw: "du \<in> w" "dv \<in> w" by blast
    have fin: "finite w" using w by (rule date_windows_finite)
    have "(t, inner) \<in> set ?m" using inner by (rule map_of_SomeD)
    with w have "SumLe (window_vars w inner) 1 \<in> set (model_constraints p ?st)"
      by (force simp: model_constraints_def rest_constraints_def)
    from solve_sound_holds[OF assms(1,2) this]
    have "var_sum ?val (window_vars w inner) \<le> 1" by simp
    moreover have "2 \<le> var_sum ?val (window_vars w inner)"
      using window_vars_mem[OF fin dw(1) u_in] window_vars_mem[OF fin dw(2) v_in] neq uv
      by (intro var_sum_two)
    ultimately show False by simp
  qed
  have "du \<noteq> dv"
  proof
    assume "du = dv"
    with date_windows_cover[OF du_key, of "min_gap_days p"] no_window show False by auto
  qed
  moreover have "\<not> \<bar>du - dv\<bar> \<le> min_gap_days p"
    using date_windows_pair[OF du_key dv_key, of "min_gap_days p"] no_window by blast
  ultimately show ?thesis by (simp add: ri rj sf_of_sel du_def dv_def)
qed

text \<open>
  Claim C4. Whenever \<open>solve\<close> returns a schedule from a sound engine, the dates of two
  different entries of the schedule in which the same team plays, at home or away, are
  not closer together than \<open>min_gap_days\<close>.
\<close>

theorem rest_gap_respected:
  assumes "engine_sound solver" and "solve solver p = Inr res"
    and "i < length res" "j < length res" "i \<noteq> j"
    and "plays t (res ! i)" "plays t (res ! j)"
  shows "min_gap_days p \<le> \<bar>date (res ! i) - date (res ! j)\<bar>"
  using rest_separation[OF assms] by linarith

text \<open>
  Claim C9. With \<open>min_gap_days \<ge> 0\<close>, whenever \<open>solve\<close> returns a schedule from a sound
  engine, the dates of two different entries of the schedule in which the same team plays
  differ by at least \<open>min_gap_days + 1\<close> days; in particular they are never exactly
  \<open>min_gap_days\<close> apart.
\<close>

theorem rest_gap_strict:
  assumes "engine_sound solver" and "solve solver p = Inr res"
    and "0 \<le> min_gap_days p"
    and "i < length res" "j < length res" "i \<noteq> j"
    and "plays t (res ! i)" "plays t (res ! j)"
  shows "min_gap_days p + 1 \<le> \<bar>date (res ! i) - date (res ! j)\<bar>
       \<and> \<bar>date (res ! i) - date (res ! j)\<bar> \<noteq> min_gap_days p"
  using rest_separation[OF assms(1,2,4-8)] by linarith

lemma fixture_count:
  assumes "engine_sound solver" and "solve solver p = Inr res"
  shows "count_list (map fixture res) fx
       = (if \<exists>i < length (candidates p). fx_of (candidates p ! i) = fx then 1 else 0)"
proof -
  let ?cs = "candidates p"
  let ?st = "built ?cs"
  let ?val = "snd (solver (length ?cs) (model_constraints p ?st))"
  let ?vs = "dd_get (vars_by_fixture ?st) fx"
  have "count_list (map fixture res) fx = length (filter (\<lambda>sf. fixture sf = fx) res)"
    by (simp add: count_list_eq_length_filter filter_map o_def eq_commute)
  moreover have "int (length (filter (\<lambda>sf. fixture sf = fx) res)) = var_sum ?val ?vs"
    by (rule count_as_var_sum[OF assms(2) _ built_vars_by_fixture]) (auto simp: sf_of_sel)
  ultimately have cnt: "int (count_list (map fixture res) fx) = var_sum ?val ?vs" by simp
  show ?thesis
  proof (cases "\<exists>i < length ?cs. fx_of (?cs ! i) = fx")
    case True
    then obtain vs where e: "(fx, vs) \<in> set (vars_by_fixture ?st)"
      using grouped_key_iff[OF built_vars_by_fixture, of fx ?cs] by blast
    have "distinct (map fst (vars_by_fixture ?st))"
      using built_vars_by_fixture[of ?cs] unfolding grouped_def by blast
    from dd_get_entry[OF this e] have "?vs = vs" .
    with e have "SumEq ?vs 1 \<in> set (model_constraints p ?st)"
      by (force simp: model_constraints_def coverage_constraints_def)
    from solve_sound_holds[OF assms this] cnt True show ?thesis by simp
  next
    case False
    then have "\<not> (\<exists>vs. (fx, vs) \<in> set (vars_by_fixture ?st))"
      using grouped_key_iff[OF built_vars_by_fixture, of fx ?cs] by blast
    then have "?vs = []" using dd_get_nonempty_key by fastforce
    with cnt False show ?thesis by simp
  qed
qed

subsection \<open>Every required fixture with an eligible date is scheduled once\<close>

text \<open>
  A team listed twice would be paired with itself; the variable of such a pairing enters
  the team's rest windows twice, so no schedule can contain it.
\<close>

lemma count_list_snoc: "count_list (xs @ [v]) i = count_list xs i + (if v = i then 1 else 0)"
  by (induction xs) auto

lemma team_date_vars_count_mono:
  "count_list (team_date_vars m t d) i
     \<le> count_list (team_date_vars (dd_append2 t' d' v m) t d) i"
  by (simp add: team_date_vars_append2 count_list_snoc)

lemma team_date_vars_count_new:
  "count_list (team_date_vars (dd_append2 t d v m) t d) v
     = Suc (count_list (team_date_vars m t d) v)"
  by (simp add: team_date_vars_append2 count_list_snoc)

lemma built_self_candidate_twice:
  assumes "i < length cs" "cs ! i = (t, t, d)"
  shows "2 \<le> count_list (team_date_vars (vars_by_team_date (built cs)) t d) i"
  using assms
proof (induction cs rule: rev_induct)
  case Nil
  then show ?case by simp
next
  case (snoc c cs)
  obtain h a d' where c: "c = (h, a, d')" by (cases c)
  let ?m = "vars_by_team_date (built cs)"
  have vtd: "vars_by_team_date (built (cs @ [c]))
      = dd_append2 a d' (length cs) (dd_append2 h d' (length cs) ?m)"
    by (simp add: built_snoc add_cand_def new_candidate_def c Let_def built_num_vars)
  show ?case
  proof (cases "i < length cs")
    case True
    with snoc have "2 \<le> count_list (team_date_vars ?m t d) i" by (simp add: nth_append)
    also have "\<dots> \<le> count_list (team_date_vars (dd_append2 h d' (length cs) ?m) t d) i"
      by (rule team_date_vars_count_mono)
    also have "\<dots> \<le> count_list (team_date_vars (vars_by_team_date (built (cs @ [c]))) t d) i"
      unfolding vtd by (rule team_date_vars_count_mono)
    finally show ?thesis .
  next
    case False
    with snoc.prems have i: "i = length cs" by simp
    with snoc.prems c have e: "h = t" "a = t" "d' = d" by simp_all
    show ?thesis unfolding vtd e i by (simp add: team_date_vars_count_new)
  qed
qed

lemma var_sum_count:
  assumes "val u"
  shows "int (count_list xs u) \<le> var_sum val xs"
  using assms by (induction xs) auto

lemma count_list_concat_mem:
  assumes "ys \<in> set yss"
  shows "count_list ys u \<le> count_list (concat yss) u"
  using assms by (induction yss) (auto simp: count_list_append)

lemma no_self_candidate:
  assumes "engine_sound solver" and "solve solver p = Inr res"
    and "i < length (candidates p)"
  shows "fst (candidates p ! i) \<noteq> fst (snd (candidates p ! i))"
proof
  let ?cs = "candidates p"
  let ?st = "built ?cs"
  let ?val = "snd (solver (length ?cs) (model_constraints p ?st))"
  let ?m = "vars_by_team_date ?st"
  assume same: "fst (?cs ! i) = fst (snd (?cs ! i))"
  have "count_list (map fixture res) (fx_of (?cs ! i)) = 1"
    unfolding fixture_count[OF assms(1,2)] using assms(3) by auto
  then have "fx_of (?cs ! i) \<in> set (map fixture res)"
    by (metis count_list_0_iff zero_neq_one)
  then obtain u where u: "u < length ?cs" "?val u" "fx_of (?cs ! u) = fx_of (?cs ! i)"
    unfolding solve_result[OF assms(2)] by (auto simp: true_vars_set sf_of_sel)
  obtain t d where cu: "?cs ! u = (t, t, d)"
    using u(3) same by (cases "?cs ! u"; cases "?cs ! i") (auto simp: fx_of_def)
  from built_self_candidate_twice[OF u(1) cu]
  have twice: "2 \<le> count_list (team_date_vars ?m t d) u" .
  then have "u \<in> set (team_date_vars ?m t d)"
    by (metis count_list_0_iff not_numeral_le_zero)
  from team_date_vars_inner[OF this] obtain inner where
    inner: "map_of ?m t = Some inner" and d_key: "d \<in> set (map fst inner)" by auto
  from inner twice have twice': "2 \<le> count_list (dd_get inner d) u"
    by (simp add: team_date_vars_def)
  from date_windows_cover[OF d_key, of "min_gap_days p"] obtain w where
    w: "w \<in> set (date_windows (map fst inner) (min_gap_days p))" "d \<in> w" by blast
  have fin: "finite w" using w(1) by (rule date_windows_finite)
  have "(t, inner) \<in> set ?m" using inner by (rule map_of_SomeD)
  with w have "SumLe (window_vars w inner) 1 \<in> set (model_constraints p ?st)"
    by (force simp: model_constraints_def rest_constraints_def)
  from solve_sound_holds[OF assms(1,2) this]
  have le: "var_sum ?val (window_vars w inner) \<le> 1" by simp
  have "dd_get inner d \<in> set (map (dd_get inner) (sorted_list_of_set w))"
    using fin w(2) by simp
  then have "count_list (dd_get inner d) u \<le> count_list (window_vars w inner) u"
    unfolding window_vars_def by (rule count_list_concat_mem)
  with twice' have "2 \<le> int (count_list (window_vars w inner) u)" by simp
  also have "\<dots> \<le> var_sum ?val (window_vars w inner)"
    using u(2) by (rule var_sum_count)
  finally show False using le by simp
qed

text \<open>
  Claim C2, as amended. Whenever \<open>solve\<close> returns a schedule from a sound engine, every
  required fixture with at least one eligible date is scheduled exactly once and every
  required fixture without an eligible date is not scheduled; the size of the schedule is
  the number of required fixtures that have an eligible date.
\<close>

theorem scheduled_once_when_eligible:
  assumes "engine_sound solver" and "solve solver p = Inr res"
  shows "(\<forall>fx. required_fixture p fx \<longrightarrow>
            count_list (map fixture res) fx
              = (if eligible_dates p (home_team fx) (away_team fx) = [] then 0 else 1))
       \<and> length res = card {fx. required_fixture p fx
                                 \<and> eligible_dates p (home_team fx) (away_team fx) \<noteq> []}"
proof (intro conjI allI impI)
  fix fx assume r: "required_fixture p fx"
  then have "(home_team fx, away_team fx) \<in> set (all_pairs p)"
    by (simp add: required_fixture_def all_pairs_neq_iff)
  then show "count_list (map fixture res) fx
              = (if eligible_dates p (home_team fx) (away_team fx) = [] then 0 else 1)"
    unfolding fixture_count[OF assms] fixture_has_candidate by simp
next
  let ?cs = "candidates p"
  let ?F = "{fx. required_fixture p fx \<and> eligible_dates p (home_team fx) (away_team fx) \<noteq> []}"
  have F: "fx \<in> ?F \<longleftrightarrow> (\<exists>i < length ?cs. fx_of (?cs ! i) = fx)" for fx
  proof
    assume "fx \<in> ?F"
    then show "\<exists>i < length ?cs. fx_of (?cs ! i) = fx"
      unfolding fixture_has_candidate
      using all_pairs_neq_iff[of "home_team fx" "away_team fx" p]
      by (auto simp: required_fixture_def)
  next
    assume "\<exists>i < length ?cs. fx_of (?cs ! i) = fx"
    then obtain i where i: "i < length ?cs" "fx_of (?cs ! i) = fx" by blast
    from no_self_candidate[OF assms i(1)] i(2) have "home_team fx \<noteq> away_team fx"
      by (cases "?cs ! i") (auto simp: fx_of_def)
    moreover from i have "(home_team fx, away_team fx) \<in> set (all_pairs p)
        \<and> eligible_dates p (home_team fx) (away_team fx) \<noteq> []"
      unfolding fixture_has_candidate[symmetric] by blast
    ultimately show "fx \<in> ?F"
      using all_pairs_members[of "home_team fx" "away_team fx" p]
      by (simp add: required_fixture_def)
  qed
  have "?F = (\<lambda>i. fx_of (?cs ! i)) ` {..<length ?cs}"
    unfolding set_eq_iff F by auto
  then have fin: "finite ?F" by simp
  have sub: "set (map fixture res) \<subseteq> ?F"
  proof
    fix fx assume "fx \<in> set (map fixture res)"
    then have "count_list (map fixture res) fx \<noteq> 0" by (simp add: count_list_0_iff)
    then have "\<exists>i < length ?cs. fx_of (?cs ! i) = fx"
      unfolding fixture_count[OF assms] by (auto split: if_splits)
    then show "fx \<in> ?F" unfolding F .
  qed
  have "length res = length (map fixture res)" by simp
  also have "\<dots> = sum (count_list (map fixture res)) ?F"
    by (rule sum_count_set[OF sub fin, symmetric])
  also have "\<dots> = sum (\<lambda>fx. 1) ?F"
    by (rule sum.cong) (simp_all add: fixture_count[OF assms] F[symmetric])
  also have "\<dots> = card ?F" by simp
  finally show "length res = card ?F" .
qed


subsection \<open>Parameters without candidates\<close>

lemma solve_empty_indices:
  assumes "accepts_empty_model solver" and "build_variables p = Inr empty_indices"
  shows "solve solver p = Inr []"
proof -
  have c: "capacity_constraints p empty_indices = Inr []"
    by (simp add: capacity_constraints_def empty_indices_def)
  have m: "model_constraints p empty_indices = []"
    by (simp add: model_constraints_def coverage_constraints_def rest_constraints_def
        capacity_list_def empty_indices_def)
  have n: "num_vars empty_indices = 0" by (simp add: empty_indices_def)
  have x: "extract_schedule empty_indices val = []" for val
    by (simp add: extract_schedule_def empty_indices_def)
  from assms(1) have "fst (solver 0 []) \<in> {OPTIMAL, FEASIBLE}"
    by (simp add: accepts_empty_model_def)
  with solve_built[OF assms(2) c, of solver] show ?thesis by (simp add: m n x)
qed

text \<open>
  Claim C10. For parameters without teams, \<open>solve\<close> returns the empty schedule, whatever
  the two mappings and the two integers are, from every engine that accepts the empty
  model.
\<close>

theorem no_teams_empty_schedule:
  assumes "accepts_empty_model solver" and "teams p = []"
  shows "solve solver p = Inr []"
proof -
  have b: "build_variables p = Inr empty_indices"
    by (simp add: build_variables_def assms(2) teams_by_division_def)
  from solve_empty_indices[OF assms(1) b] show ?thesis .
qed

lemma no_candidates_empty_schedule:
  assumes "accepts_empty_model solver"
    and "\<forall>(h, a) \<in> set (all_pairs p). home_dates p (club h) \<noteq> None \<and> eligible_dates p h a = []"
  shows "solve solver p = Inr []"
proof -
  have c: "candidates p = []"
    using assms(2) by (auto simp: candidates_def pair_cands_def)
  have "build_variables p = Inr (foldl add_cand empty_indices (candidates p))"
    by (rule build_variables_ok) (use assms(2) in auto)
  then have b: "build_variables p = Inr empty_indices" by (simp add: c)
  from solve_empty_indices[OF assms(1) b] show ?thesis .
qed

text \<open>
  Claim C1, as amended. For two teams A and B in one division, where A's only candidate
  home date is day 1 and day 2 is among A's unavailable away dates, and B's only candidate
  home date is day 2 and day 1 is among B's unavailable away dates, no variable and no
  constraint is created, and \<open>solve\<close> returns the empty schedule from every engine that
  accepts the empty model.
\<close>

theorem blocked_pair_empty_schedule:
  assumes "accepts_empty_model solver"
    and "teams p = [A, B]" "division A = division B"
    and "home_dates p (club A) = Some [day1]"
    and "unavailable_away_dates p (club A) = Some ua" "day2 \<in> set ua"
    and "home_dates p (club B) = Some [day2]"
    and "unavailable_away_dates p (club B) = Some ub" "day1 \<in> set ub"
  shows "solve solver p = Inr []"
proof (rule no_candidates_empty_schedule[OF assms(1)])
  have tbd: "teams_by_division (teams p) = [(division A, [A, B])]"
    by (simp add: teams_by_division_def assms(2,3))
  have "permutations2 [A, B] = [(A, B), (B, A)]"
    by (simp add: permutations2_def upt_rec)
  then have ap: "all_pairs p = [(A, B), (B, A)]"
    by (simp add: all_pairs_def tbd)
  show "\<forall>(h, a) \<in> set (all_pairs p). home_dates p (club h) \<noteq> None \<and> eligible_dates p h a = []"
    using assms(4-9) by (simp add: ap eligible_dates_def home_list_def away_blackout_def)
qed


subsection \<open>Parameters that the specification calls invalid\<close>





subsubsection \<open>The inner dictionaries have distinct keys\<close>



subsubsection \<open>The variables do not depend on the two integers\<close>




















section \<open>The model on concrete parameters\<close>

text \<open>The exhaustive engine meets the contract, and the model runs on the parameters above.\<close>

lemma search_engine_sound: "engine_sound search_engine"
  unfolding engine_sound_def search_engine_def
  by (auto split: option.splits simp: find_Some_iff)

lemma search_engine_accepts_empty: "accepts_empty_model search_engine"
  by (simp add: accepts_empty_model_def search_engine_def)

lemma two_leg_solved: "solve search_engine two_leg_params = Inr two_leg_schedule"
  by code_simp

lemma one_leg_solved:
  "solve search_engine one_leg_params = Inr [\<lparr>fixture = fixture_ba, date = 8\<rparr>]"
  by code_simp

lemma impossible_solved: "solve search_engine impossible_params = Inr []"
  by code_simp

lemma lone_team_solved: "solve search_engine lone_team_params = Inr []"
  by code_simp

lemma two_leg_facts:
  "0 < length two_leg_schedule" "1 < length two_leg_schedule"
  "plays team_a (two_leg_schedule ! 0)" "plays team_a (two_leg_schedule ! 1)"
  by (simp_all add: two_leg_schedule_def plays_def fixture_ab_def fixture_ba_def)

theorem rest_gap_respected_witness:
  "engine_sound search_engine
   \<and> solve search_engine two_leg_params = Inr two_leg_schedule
   \<and> 0 < length two_leg_schedule \<and> 1 < length two_leg_schedule \<and> (0::nat) \<noteq> 1
   \<and> plays team_a (two_leg_schedule ! 0) \<and> plays team_a (two_leg_schedule ! 1)
   \<and> min_gap_days two_leg_params
        \<le> \<bar>date (two_leg_schedule ! 0) - date (two_leg_schedule ! 1)\<bar>"
proof -
  have n: "(0::nat) \<noteq> 1" by simp
  from rest_gap_respected[OF search_engine_sound two_leg_solved two_leg_facts(1,2) n
      two_leg_facts(3,4)]
    search_engine_sound two_leg_solved two_leg_facts n
  show ?thesis by blast
qed

theorem rest_gap_strict_witness:
  "engine_sound search_engine
   \<and> solve search_engine two_leg_params = Inr two_leg_schedule
   \<and> 0 \<le> min_gap_days two_leg_params
   \<and> 0 < length two_leg_schedule \<and> 1 < length two_leg_schedule \<and> (0::nat) \<noteq> 1
   \<and> plays team_a (two_leg_schedule ! 0) \<and> plays team_a (two_leg_schedule ! 1)
   \<and> min_gap_days two_leg_params + 1
        \<le> \<bar>date (two_leg_schedule ! 0) - date (two_leg_schedule ! 1)\<bar>
   \<and> \<bar>date (two_leg_schedule ! 0) - date (two_leg_schedule ! 1)\<bar> \<noteq> min_gap_days two_leg_params"
proof -
  have g: "0 \<le> min_gap_days two_leg_params" by (simp add: two_leg_params_def)
  have n: "(0::nat) \<noteq> 1" by simp
  from rest_gap_strict[OF search_engine_sound two_leg_solved g two_leg_facts(1,2) n
      two_leg_facts(3,4)]
    search_engine_sound two_leg_solved g two_leg_facts n
  show ?thesis by blast
qed

theorem scheduled_dates_eligible_witness:
  "solve search_engine two_leg_params = Inr two_leg_schedule
   \<and> \<lparr>fixture = fixture_ba, date = 9\<rparr> \<in> set two_leg_schedule
   \<and> home_dates two_leg_params (club team_b) = Some [2, 9] \<and> (9::int) \<in> set [2, 9]
   \<and> unavailable_away_dates two_leg_params (club team_a) = Some [2] \<and> (9::int) \<notin> set [2]"
  using scheduled_dates_eligible[OF two_leg_solved, of "\<lparr>fixture = fixture_ba, date = 9\<rparr>"]
    two_leg_solved
  by (simp add: two_leg_schedule_def two_leg_params_def team_a_def team_b_def)

theorem host_capacity_respected_witness:
  "engine_sound search_engine
   \<and> solve search_engine two_leg_params = Inr two_leg_schedule
   \<and> hosted_on ''Test Club A'' 1 two_leg_schedule = 1
   \<and> int (hosted_on ''Test Club A'' 1 two_leg_schedule)
        \<le> max 0 (max_concurrent_home_matches two_leg_params)"
proof -
  have "hosted_on ''Test Club A'' 1 two_leg_schedule = 1"
    by (simp add: hosted_on_def two_leg_schedule_def fixture_ab_def fixture_ba_def
        team_a_def team_b_def)
  with host_capacity_respected[OF search_engine_sound two_leg_solved, of "''Test Club A''" 1]
    search_engine_sound two_leg_solved
  show ?thesis by simp
qed

theorem host_capacity_counterexample:
  "solve search_engine lone_team_params = Inr []
   \<and> \<not> int (hosted_on ''Test Club A'' 1 []) \<le> max_concurrent_home_matches lone_team_params"
  using lone_team_solved by (simp add: hosted_on_def lone_team_params_def)

theorem scheduled_once_when_eligible_witness:
  "engine_sound search_engine
   \<and> solve search_engine two_leg_params = Inr two_leg_schedule
   \<and> required_fixture two_leg_params fixture_ab
   \<and> eligible_dates two_leg_params (home_team fixture_ab) (away_team fixture_ab) = [1, 5]
   \<and> count_list (map fixture two_leg_schedule) fixture_ab = 1
   \<and> card {fx. required_fixture two_leg_params fx
               \<and> eligible_dates two_leg_params (home_team fx) (away_team fx) \<noteq> []} = 2"
proof -
  note th = scheduled_once_when_eligible[OF search_engine_sound two_leg_solved]
  have r: "required_fixture two_leg_params fixture_ab"
    by (simp add: required_fixture_def two_leg_params_def fixture_ab_def team_a_def team_b_def)
  have e: "eligible_dates two_leg_params (home_team fixture_ab) (away_team fixture_ab) = [1, 5]"
    by (simp add: eligible_dates_def home_list_def away_blackout_def two_leg_params_def
        fixture_ab_def team_a_def team_b_def)
  from th r e have c: "count_list (map fixture two_leg_schedule) fixture_ab = 1" by simp
  from th have "length two_leg_schedule
      = card {fx. required_fixture two_leg_params fx
               \<and> eligible_dates two_leg_params (home_team fx) (away_team fx) \<noteq> []}"
    by blast
  then have k: "card {fx. required_fixture two_leg_params fx
               \<and> eligible_dates two_leg_params (home_team fx) (away_team fx) \<noteq> []} = 2"
    by (simp add: two_leg_schedule_def)
  from search_engine_sound two_leg_solved r e c k show ?thesis by blast
qed

theorem scheduled_once_counterexample:
  "solve search_engine one_leg_params = Inr [\<lparr>fixture = fixture_ba, date = 8\<rparr>]
   \<and> required_fixture one_leg_params fixture_ab
   \<and> count_list (map fixture [\<lparr>fixture = fixture_ba, date = 8\<rparr>]) fixture_ab = 0
   \<and> required_fixture one_leg_params fixture_ba
   \<and> length [\<lparr>fixture = fixture_ba, date = 8\<rparr>] = 1"
  using one_leg_solved
  by (simp add: required_fixture_def one_leg_params_def fixture_ab_def fixture_ba_def
      team_a_def team_b_def)

theorem no_teams_empty_schedule_witness:
  "accepts_empty_model search_engine
   \<and> teams (lone_team_params\<lparr>teams := []\<rparr>) = []
   \<and> solve search_engine (lone_team_params\<lparr>teams := []\<rparr>) = Inr []"
  using no_teams_empty_schedule[OF search_engine_accepts_empty, of "lone_team_params\<lparr>teams := []\<rparr>"]
    search_engine_accepts_empty
  by simp

theorem blocked_pair_counterexample:
  "solve search_engine impossible_params = Inr []
   \<and> solve search_engine impossible_params \<noteq> Inl (ValueError ''No solution found'')"
  using impossible_solved by simp

theorem blocked_pair_empty_schedule_witness:
  "accepts_empty_model search_engine
   \<and> teams impossible_params = [team_a, team_b] \<and> division team_a = division team_b
   \<and> home_dates impossible_params (club team_a) = Some [739252]
   \<and> unavailable_away_dates impossible_params (club team_a) = Some [739253]
   \<and> home_dates impossible_params (club team_b) = Some [739253]
   \<and> unavailable_away_dates impossible_params (club team_b) = Some [739252]
   \<and> solve search_engine impossible_params = Inr []"
proof -
  have h: "teams impossible_params = [team_a, team_b]" "division team_a = division team_b"
    "home_dates impossible_params (club team_a) = Some [739252]"
    "unavailable_away_dates impossible_params (club team_a) = Some [739253]"
    "home_dates impossible_params (club team_b) = Some [739253]"
    "unavailable_away_dates impossible_params (club team_b) = Some [739252]"
    by (simp_all add: impossible_params_def team_a_def team_b_def)
  from blocked_pair_empty_schedule[OF search_engine_accepts_empty h(1,2,3,4) _ h(5,6)]
  have "solve search_engine impossible_params = Inr []" by simp
  with search_engine_accepts_empty h show ?thesis by simp
qed





text \<open>The bound of the capacity constraints, at and beyond the ends of the accepted range.\<close>

lemma huge_capacity_raises:
  "solve search_engine (two_leg_params\<lparr>max_concurrent_home_matches := 2 ^ 63\<rparr>)
     = Inl (BoundError (2 ^ 63))"
  by code_simp

lemma least_capacity_raises:
  "solve search_engine (two_leg_params\<lparr>max_concurrent_home_matches := - (2 ^ 63)\<rparr>)
     = Inl (BoundError (- (2 ^ 63)))"
  by code_simp

lemma huge_capacity_without_candidates:
  "solve search_engine (lone_team_params\<lparr>max_concurrent_home_matches := 2 ^ 63\<rparr>) = Inr []"
  by code_simp


end
